theory Spec2Isabelle
  imports Complex_Main "HOL-Library.AList" "HOL-Library.Code_Target_Numeral"
begin

section \<open>The run-time values of the state container\<close>

text \<open>
  The state manager (\<^verbatim>\<open>StateManager.ts\<close>) stores arbitrary JavaScript values and
  compares them with \<^verbatim>\<open>===\<close>, so the embedding keeps object identity: a value is a
  primitive or a reference into an object store. The store is a list of objects, the
  address of an object is its index, and allocation appends. The fragment of the
  language that is modelled:
  \<^item> primitives: \<^verbatim>\<open>undefined\<close>, \<^verbatim>\<open>null\<close>, booleans, numbers (finite numbers as reals,
    and \<^verbatim>\<open>NaN\<close>, which is the one value not \<^verbatim>\<open>===\<close> to itself), strings;
  \<^item> objects: plain objects, arrays and dates, each with its own string-keyed
    properties in insertion order; an array also has its elements and its \<^verbatim>\<open>length\<close>;
    (a property named like an index is enumerated by the program before the others:
    here it stays where it was inserted, which decides nothing but which of two
    failures of one clone is met first);
  \<^item> the built-in prototypes of these values (\<^verbatim>\<open>Object.prototype\<close>, \<^verbatim>\<open>Array.prototype\<close>,
    \<^verbatim>\<open>Date.prototype\<close>, and those of strings, numbers and booleans), as ECMAScript 2024
    with its annex B defines them and as the program finds them (it never changes them in
    a step that is modelled): a property that a value does not own is read from them,
    and what is found there is a value too, a built-in function or a prototype object,
    known by its place only;
  \<^item> the class body is strict-mode code: an assignment to a property of a primitive
    raises \<^verbatim>\<open>TypeError\<close>;
  \<^item> the call stack is finite: a recursion deeper than the stack raises \<^verbatim>\<open>RangeError\<close>.

  Not modelled are the members of the built-in objects themselves, a change of
  prototype through the accessor \<^verbatim>\<open>__proto__\<close>, the conversion of strings and objects to
  numbers, symbols, functions and instances of classes of the program as values,
  accessors on the objects of the program, frozen objects and proxies.
  Where the program takes such a step the embedding ends with the outcome \<open>Unmodelled\<close>,
  which is no outcome of the program: no statement below is about an execution that
  ends there.
\<close>

type_synonym addr = nat

datatype proto = ObjectProto | ArrayProto | DateProto | StringProto | NumberProto | BooleanProto

text \<open>
  \<open>VNative p k\<close> is the built-in function that the prototype \<open>p\<close> holds under the name \<open>k\<close>;
  under the name \<^verbatim>\<open>__proto__\<close> it is the prototype object \<open>p\<close> itself (what the accessor of
  that name returns for a value whose prototype is \<open>p\<close>).
\<close>

datatype jsval =
    VUndefined
  | VNull
  | VBool bool
  | VNum real
  | VNaN
  | VStr string
  | VRef addr
  | VNative proto string

datatype okind = Plain | Arr "jsval list" | Date int

datatype obj = Obj okind "(string \<times> jsval) list"

type_synonym heap = "obj list"

datatype js_error = TypeError | RangeError | Unmodelled

datatype completion = Normal | Throw js_error

definition lookup_obj :: "heap \<Rightarrow> addr \<Rightarrow> obj option" where
  "lookup_obj h a = (if a < length h then Some (h ! a) else None)"

definition alloc :: "heap \<Rightarrow> obj \<Rightarrow> heap \<times> addr" where
  "alloc h ob = (h @ [ob], length h)"

text \<open>\<^verbatim>\<open>a === b\<close>: identity on references, equality on primitives, false on \<^verbatim>\<open>NaN\<close>.\<close>

definition strict_eq :: "jsval \<Rightarrow> jsval \<Rightarrow> bool" where
  "strict_eq a b = (a = b \<and> a \<noteq> VNaN)"

text \<open>The truth value of a value in a condition (\<^verbatim>\<open>!x\<close> is its negation).\<close>

fun truthy :: "jsval \<Rightarrow> bool" where
  "truthy VUndefined = False"
| "truthy VNull = False"
| "truthy (VBool b) = b"
| "truthy (VNum r) = (r \<noteq> 0)"
| "truthy VNaN = False"
| "truthy (VStr s) = (s \<noteq> [])"
| "truthy (VRef a) = True"
| "truthy (VNative p k) = True"

fun nullish :: "jsval \<Rightarrow> bool" where
  "nullish VUndefined = True"
| "nullish VNull = True"
| "nullish _ = False"

fun is_native :: "jsval \<Rightarrow> bool" where
  "is_native (VNative p k) = True"
| "is_native _ = False"

subsection \<open>Property keys that are array indices\<close>

definition is_digit :: "char \<Rightarrow> bool" where
  "is_digit c = (c \<in> set ''0123456789'')"

definition digit_val :: "char \<Rightarrow> nat" where
  "digit_val c = of_char c - 48"

text \<open>A canonical array index: decimal digits without a leading zero, below \<open>2^32 - 1\<close>.\<close>

definition index_of_key :: "string \<Rightarrow> nat option" where
  "index_of_key k =
     (if k \<noteq> [] \<and> list_all is_digit k \<and> (length k = 1 \<or> hd k \<noteq> CHR ''0'')
      then (let n = foldl (\<lambda>n c. 10 * n + digit_val c) 0 k
            in if n < 4294967295 then Some n else None)
      else None)"

subsection \<open>The members of the built-in prototypes\<close>

text \<open>
  The string-keyed members of the prototypes, by name. All of them are functions, but
  for \<^verbatim>\<open>__proto__\<close> of \<^verbatim>\<open>Object.prototype\<close>, which is an accessor and is treated apart, and
  \<^verbatim>\<open>length\<close> of \<^verbatim>\<open>Array.prototype\<close> and \<^verbatim>\<open>String.prototype\<close>, which no array and no string
  inherits, having a length of its own.
\<close>

definition members :: "proto \<Rightarrow> string list" where
  "members p =
     (case p of
        ObjectProto \<Rightarrow>
          [''constructor'', ''__defineGetter__'', ''__defineSetter__'', ''hasOwnProperty'',
           ''__lookupGetter__'', ''__lookupSetter__'', ''isPrototypeOf'',
           ''propertyIsEnumerable'', ''toString'', ''valueOf'', ''toLocaleString'']
      | ArrayProto \<Rightarrow>
          [''constructor'', ''at'', ''concat'', ''copyWithin'', ''fill'', ''find'', ''findIndex'',
           ''findLast'', ''findLastIndex'', ''lastIndexOf'', ''pop'', ''push'', ''reverse'',
           ''shift'', ''unshift'', ''slice'', ''sort'', ''splice'', ''includes'', ''indexOf'',
           ''join'', ''keys'', ''entries'', ''values'', ''forEach'', ''filter'', ''flat'',
           ''flatMap'', ''map'', ''every'', ''some'', ''reduce'', ''reduceRight'',
           ''toLocaleString'', ''toString'', ''toReversed'', ''toSorted'', ''toSpliced'', ''with'']
      | DateProto \<Rightarrow>
          [''constructor'', ''toString'', ''toDateString'', ''toTimeString'', ''toISOString'',
           ''toUTCString'', ''toGMTString'', ''getDate'', ''setDate'', ''getDay'',
           ''getFullYear'', ''setFullYear'', ''getHours'', ''setHours'', ''getMilliseconds'',
           ''setMilliseconds'', ''getMinutes'', ''setMinutes'', ''getMonth'', ''setMonth'',
           ''getSeconds'', ''setSeconds'', ''getTime'', ''setTime'', ''getTimezoneOffset'',
           ''getUTCDate'', ''setUTCDate'', ''getUTCDay'', ''getUTCFullYear'',
           ''setUTCFullYear'', ''getUTCHours'', ''setUTCHours'', ''getUTCMilliseconds'',
           ''setUTCMilliseconds'', ''getUTCMinutes'', ''setUTCMinutes'', ''getUTCMonth'',
           ''setUTCMonth'', ''getUTCSeconds'', ''setUTCSeconds'', ''valueOf'', ''getYear'',
           ''setYear'', ''toJSON'', ''toLocaleString'', ''toLocaleDateString'',
           ''toLocaleTimeString'']
      | StringProto \<Rightarrow>
          [''constructor'', ''anchor'', ''at'', ''big'', ''blink'', ''bold'', ''charAt'',
           ''charCodeAt'', ''codePointAt'', ''concat'', ''endsWith'', ''fontcolor'',
           ''fontsize'', ''fixed'', ''includes'', ''indexOf'', ''isWellFormed'', ''italics'',
           ''lastIndexOf'', ''link'', ''localeCompare'', ''match'', ''matchAll'',
           ''normalize'', ''padEnd'', ''padStart'', ''repeat'', ''replace'', ''replaceAll'',
           ''search'', ''slice'', ''small'', ''split'', ''strike'', ''sub'', ''substr'',
           ''substring'', ''sup'', ''startsWith'', ''toString'', ''toWellFormed'', ''trim'',
           ''trimStart'', ''trimLeft'', ''trimEnd'', ''trimRight'', ''toLocaleLowerCase'',
           ''toLocaleUpperCase'', ''toLowerCase'', ''toUpperCase'', ''valueOf'']
      | NumberProto \<Rightarrow>
          [''constructor'', ''toExponential'', ''toFixed'', ''toPrecision'', ''toString'',
           ''valueOf'', ''toLocaleString'']
      | BooleanProto \<Rightarrow> [''constructor'', ''toString'', ''valueOf''])"

text \<open>Three members are found under two names: the same function under both.\<close>

definition canonical :: "proto \<Rightarrow> string \<Rightarrow> string" where
  "canonical p k =
     (if p = DateProto \<and> k = ''toGMTString'' then ''toUTCString''
      else if p = StringProto \<and> k = ''trimLeft'' then ''trimStart''
      else if p = StringProto \<and> k = ''trimRight'' then ''trimEnd''
      else k)"

text \<open>
  What a value with the given chain of prototypes has under a name that it does not own:
  the member of the first prototype that has one, \<^verbatim>\<open>undefined\<close> when none has.
\<close>

fun inherited :: "proto list \<Rightarrow> string \<Rightarrow> jsval" where
  "inherited [] k = VUndefined"
| "inherited (p # ps) k =
     (if k = ''__proto__'' then VNative p k
      else if k \<in> set (members p) then VNative p (canonical p k)
      else inherited ps k)"

fun chain :: "okind \<Rightarrow> proto list" where
  "chain Plain = [ObjectProto]"
| "chain (Arr xs) = [ArrayProto, ObjectProto]"
| "chain (Date t) = [DateProto, ObjectProto]"

subsection \<open>Reading a property\<close>

text \<open>\<^verbatim>\<open>obj[key]\<close> on an object: the own property, else what the object inherits.\<close>

definition own_or_inherited :: "okind \<Rightarrow> (string \<times> jsval) list \<Rightarrow> string \<Rightarrow> jsval" where
  "own_or_inherited kind ps k =
     (case map_of ps k of Some v \<Rightarrow> v | None \<Rightarrow> inherited (chain kind) k)"

fun obj_get :: "obj \<Rightarrow> string \<Rightarrow> jsval" where
  "obj_get (Obj (Arr xs) ps) k =
     (case index_of_key k of
        Some i \<Rightarrow> (if i < length xs then xs ! i else VUndefined)
      | None \<Rightarrow>
          (if k = ''length'' then VNum (real (length xs))
           else own_or_inherited (Arr xs) ps k))"
| "obj_get (Obj Plain ps) k = own_or_inherited Plain ps k"
| "obj_get (Obj (Date t) ps) k = own_or_inherited (Date t) ps k"

text \<open>
  \<^verbatim>\<open>obj[key]\<close> for a value that is neither \<^verbatim>\<open>undefined\<close> nor \<^verbatim>\<open>null\<close> nor a built-in
  object. A string has its characters and its length; apart from these a primitive has
  what its prototype has. A reference outside the store does not occur in a run; it
  reads as an object without properties. On \<^verbatim>\<open>undefined\<close> and \<^verbatim>\<open>null\<close> the read throws,
  and the members of a built-in object are not modelled: the operations below ask for
  these two cases before they read, and the value given here for them is never used.
\<close>

fun get_member :: "heap \<Rightarrow> jsval \<Rightarrow> string \<Rightarrow> jsval" where
  "get_member h (VRef a) k =
     (case lookup_obj h a of Some ob \<Rightarrow> obj_get ob k | None \<Rightarrow> VUndefined)"
| "get_member h (VStr s) k =
     (case index_of_key k of
        Some i \<Rightarrow> (if i < length s then VStr [s ! i] else VUndefined)
      | None \<Rightarrow>
          (if k = ''length'' then VNum (real (length s))
           else inherited [StringProto, ObjectProto] k))"
| "get_member h (VNum r) k = inherited [NumberProto, ObjectProto] k"
| "get_member h VNaN k = inherited [NumberProto, ObjectProto] k"
| "get_member h (VBool b) k = inherited [BooleanProto, ObjectProto] k"
| "get_member h VUndefined k = VUndefined"
| "get_member h VNull k = VUndefined"
| "get_member h (VNative p n) k = VUndefined"

text \<open>
  \<^verbatim>\<open>obj?.[key]\<close>: \<^verbatim>\<open>undefined\<close> when \<^verbatim>\<open>obj\<close> is \<^verbatim>\<open>undefined\<close> or \<^verbatim>\<open>null\<close>. (On a built-in
  object the read is not modelled; \<open>follow\<close> below asks before it reads.)
\<close>

definition opt_member :: "heap \<Rightarrow> jsval \<Rightarrow> string \<Rightarrow> jsval" where
  "opt_member h v k = (if nullish v then VUndefined else get_member h v k)"

subsection \<open>Writing a property\<close>

text \<open>
  The number that an array takes as its new \<^verbatim>\<open>length\<close>: the value converted to a number
  must be an integer from 0 to \<open>2^32 - 1\<close>, else the assignment raises \<^verbatim>\<open>RangeError\<close>.
  \<^verbatim>\<open>null\<close> and \<^verbatim>\<open>false\<close> convert to 0, \<^verbatim>\<open>true\<close> to 1, \<^verbatim>\<open>undefined\<close> to \<^verbatim>\<open>NaN\<close>; the conversion
  of strings and of objects is not modelled.
\<close>

definition to_length :: "jsval \<Rightarrow> js_error + nat" where
  "to_length v =
     (case v of
        VNum r \<Rightarrow>
          (if 0 \<le> r \<and> r = of_int \<lfloor>r\<rfloor> \<and> r < 4294967296 then Inr (nat \<lfloor>r\<rfloor>)
           else Inl RangeError)
      | VNaN \<Rightarrow> Inl RangeError
      | VUndefined \<Rightarrow> Inl RangeError
      | VNull \<Rightarrow> Inr 0
      | VBool b \<Rightarrow> Inr (if b then 1 else 0)
      | VStr s \<Rightarrow> Inl Unmodelled
      | VRef a \<Rightarrow> Inl Unmodelled
      | VNative p k \<Rightarrow> Inl Unmodelled)"

definition resize :: "jsval list \<Rightarrow> nat \<Rightarrow> jsval list" where
  "resize xs n = take n xs @ replicate (n - length xs) VUndefined"

text \<open>
  An assignment to a property that the object owns changes it, and one to a property
  that it does not own creates it, also under a name that the object inherits a function
  under. The one exception is \<^verbatim>\<open>__proto__\<close>: unless the object owns a property of that
  name, the assignment goes to the accessor, which makes an object or \<^verbatim>\<open>null\<close> the new
  prototype (not modelled) and does nothing for any other value.
\<close>

fun object_or_null :: "jsval \<Rightarrow> bool" where
  "object_or_null (VRef a) = True"
| "object_or_null (VNative p k) = True"
| "object_or_null VNull = True"
| "object_or_null v = False"

definition put :: "(string \<times> jsval) list \<Rightarrow> string \<Rightarrow> jsval \<Rightarrow> js_error + (string \<times> jsval) list" where
  "put ps k v =
     (if k = ''__proto__'' \<and> map_of ps k = None
      then (if object_or_null v then Inl Unmodelled else Inr ps)
      else Inr (AList.update k v ps))"

text \<open>
  Writing an index at or beyond the length of an array extends the array; writing its
  \<^verbatim>\<open>length\<close> resizes it.
\<close>

fun obj_set :: "obj \<Rightarrow> string \<Rightarrow> jsval \<Rightarrow> js_error + obj" where
  "obj_set (Obj (Arr xs) ps) k v =
     (case index_of_key k of
        Some i \<Rightarrow> Inr (Obj (Arr ((resize xs (max (length xs) (Suc i)))[i := v])) ps)
      | None \<Rightarrow>
          (if k = ''length''
           then (case to_length v of
                   Inr n \<Rightarrow> Inr (Obj (Arr (resize xs n)) ps)
                 | Inl err \<Rightarrow> Inl err)
           else (case put ps k v of
                   Inr qs \<Rightarrow> Inr (Obj (Arr xs) qs)
                 | Inl err \<Rightarrow> Inl err)))"
| "obj_set (Obj Plain ps) k v =
     (case put ps k v of Inr qs \<Rightarrow> Inr (Obj Plain qs) | Inl err \<Rightarrow> Inl err)"
| "obj_set (Obj (Date t) ps) k v =
     (case put ps k v of Inr qs \<Rightarrow> Inr (Obj (Date t) qs) | Inl err \<Rightarrow> Inl err)"

text \<open>
  \<^verbatim>\<open>obj[key] = v\<close> in strict mode. On \<^verbatim>\<open>undefined\<close> and \<^verbatim>\<open>null\<close> it throws; on another
  primitive it throws too, as no property can be created or changed on it, unless the
  assignment goes to the accessor \<^verbatim>\<open>__proto__\<close>, which does nothing for a primitive; on a
  built-in object it is not modelled.
\<close>

fun set_member :: "heap \<Rightarrow> jsval \<Rightarrow> string \<Rightarrow> jsval \<Rightarrow> js_error + heap" where
  "set_member h (VRef a) k v =
     (case lookup_obj h a of
        None \<Rightarrow> Inl TypeError
      | Some ob \<Rightarrow> (case obj_set ob k v of Inl e \<Rightarrow> Inl e | Inr ob' \<Rightarrow> Inr (h[a := ob'])))"
| "set_member h (VNative p n) k v = Inl Unmodelled"
| "set_member h VUndefined k v = Inl TypeError"
| "set_member h VNull k v = Inl TypeError"
| "set_member h u k v = (if k = ''__proto__'' then Inr h else Inl TypeError)"

subsection \<open>\<^verbatim>\<open>path.split('.')\<close>\<close>

fun split_dot :: "string \<Rightarrow> string list" where
  "split_dot [] = [[]]"
| "split_dot (c # cs) =
     (if c = CHR ''.'' then [] # split_dot cs
      else (case split_dot cs of w # ws \<Rightarrow> (c # w) # ws | [] \<Rightarrow> [[c]]))"

section \<open>deepEqual and deepClone\<close>

text \<open>
  Both functions recurse through the store, so the recursion is bounded by the stack:
  the first argument is the number of nested calls the stack still has room for below
  the current one; the stack overflow (\<^verbatim>\<open>RangeError\<close>) is \<open>None\<close> for \<open>deepEqual\<close>, which
  ends in no other way without a result, and \<open>Inl RangeError\<close> for \<open>deepClone\<close>.
\<close>

text \<open>
  The elements of a value for which \<^verbatim>\<open>Array.isArray\<close> holds: an array of the store, or
  \<^verbatim>\<open>Array.prototype\<close>, which is an array without elements.
\<close>

definition array_items :: "heap \<Rightarrow> jsval \<Rightarrow> jsval list option" where
  "array_items h v =
     (case v of
        VRef a \<Rightarrow> (case lookup_obj h a of Some (Obj (Arr xs) ps) \<Rightarrow> Some xs | _ \<Rightarrow> None)
      | VNative p k \<Rightarrow> (if p = ArrayProto \<and> k = ''__proto__'' then Some [] else None)
      | _ \<Rightarrow> None)"

text \<open>The loop \<^verbatim>\<open>for (i...) if (!this.deepEqual(a[i], b[i])) return false\<close>.\<close>

fun eq_loop :: "(jsval \<Rightarrow> jsval \<Rightarrow> bool option) \<Rightarrow> jsval list \<Rightarrow> jsval list \<Rightarrow> bool option" where
  "eq_loop rec (x # xs) (y # ys) =
     (case rec x y of
        None \<Rightarrow> None
      | Some False \<Rightarrow> Some False
      | Some True \<Rightarrow> eq_loop rec xs ys)"
| "eq_loop rec xs ys = Some True"

definition deepEqual_body ::
  "(jsval \<Rightarrow> jsval \<Rightarrow> bool option) \<Rightarrow> heap \<Rightarrow> jsval \<Rightarrow> jsval \<Rightarrow> bool option" where
  "deepEqual_body rec h a b =
     (if strict_eq a b then Some True
      else if a = VNull \<or> b = VNull then Some False
      else (case (array_items h a, array_items h b) of
              (Some xs, Some ys) \<Rightarrow>
                (if length xs \<noteq> length ys then Some False else eq_loop rec xs ys)
            | _ \<Rightarrow> Some False))"

primrec deepEqual :: "nat \<Rightarrow> heap \<Rightarrow> jsval \<Rightarrow> jsval \<Rightarrow> bool option" where
  "deepEqual 0 h a b = deepEqual_body (\<lambda>x y. None) h a b"
| "deepEqual (Suc n) h a b = deepEqual_body (deepEqual n h) h a b"

text \<open>
  \<^verbatim>\<open>obj.name(...)\<close> calls what the object has under the name. That is the method of its
  prototype unless the object owns a property of that name; an own property that is no
  function makes the call a \<^verbatim>\<open>TypeError\<close>, and the call of another built-in function is
  not modelled. The result is the error of the call, if any.
\<close>

definition call_method :: "obj \<Rightarrow> string \<Rightarrow> proto \<Rightarrow> js_error option" where
  "call_method ob name p =
     (case obj_get ob name of
        VNative q n \<Rightarrow> (if q = p \<and> n = name then None else Some Unmodelled)
      | _ \<Rightarrow> Some TypeError)"

text \<open>
  \<^verbatim>\<open>Array.prototype.map\<close> creates its result through the \<^verbatim>\<open>constructor\<close> property of the
  array: when that is a primitive other than \<^verbatim>\<open>undefined\<close>, it is no constructor and the
  call is a \<^verbatim>\<open>TypeError\<close>; with an object without species, or with one of the built-in
  objects of this embedding, the result is an ordinary array.
\<close>

definition species :: "obj \<Rightarrow> js_error option" where
  "species ob =
     (case obj_get ob ''constructor'' of
        VUndefined \<Rightarrow> None
      | VRef a \<Rightarrow> None
      | VNative p k \<Rightarrow> None
      | _ \<Rightarrow> Some TypeError)"

text \<open>\<^verbatim>\<open>obj.map(item => this.deepClone(item))\<close>, threading the store.\<close>

fun clone_items ::
  "(heap \<Rightarrow> jsval \<Rightarrow> js_error + heap \<times> jsval) \<Rightarrow> heap \<Rightarrow> jsval list
     \<Rightarrow> js_error + heap \<times> jsval list" where
  "clone_items rec h [] = Inr (h, [])"
| "clone_items rec h (x # xs) =
     (case rec h x of
        Inl err \<Rightarrow> Inl err
      | Inr (h1, y) \<Rightarrow>
          (case clone_items rec h1 xs of
             Inl err \<Rightarrow> Inl err
           | Inr (h2, ys) \<Rightarrow> Inr (h2, y # ys)))"

text \<open>
  The body of \<^verbatim>\<open>for (const key in obj)\<close>, once \<^verbatim>\<open>obj.hasOwnProperty(key)\<close> has returned
  true: \<^verbatim>\<open>cloned[key] = this.deepClone(obj[key])\<close>, the clone first and then the assignment.
  The keys of an object are distinct, so the assignment adds a property to the new
  object, but for the key \<^verbatim>\<open>__proto__\<close>, where it goes to the accessor (see \<open>put\<close>).
\<close>

fun clone_props ::
  "(heap \<Rightarrow> jsval \<Rightarrow> js_error + heap \<times> jsval) \<Rightarrow> heap \<Rightarrow> (string \<times> jsval) list
     \<Rightarrow> js_error + heap \<times> (string \<times> jsval) list" where
  "clone_props rec h [] = Inr (h, [])"
| "clone_props rec h ((k, x) # ps) =
     (case rec h x of
        Inl err \<Rightarrow> Inl err
      | Inr (h1, y) \<Rightarrow>
          (if k = ''__proto__''
           then (if object_or_null y then Inl Unmodelled else clone_props rec h1 ps)
           else (case clone_props rec h1 ps of
                   Inl err \<Rightarrow> Inl err
                 | Inr (h2, qs) \<Rightarrow> Inr (h2, (k, y) # qs))))"

text \<open>
  The clone of an object. A date is rebuilt from \<^verbatim>\<open>obj.getTime()\<close>; an array is mapped
  by \<^verbatim>\<open>obj.map\<close> (the result has the elements only); any other object is copied property
  by property, and \<^verbatim>\<open>obj.hasOwnProperty(key)\<close> is called for every property before the
  property is cloned. The clone does not change the object, so the call ends in the same
  way for every property: it is asked for once, before the first property, and for an
  object without properties it is not made at all. When it returns, it returns true:
  the loop meets own properties only, the built-in prototypes having no enumerable
  members. The new object is entered into the store when its parts are complete;
  addresses are not observable, so the order of allocation is immaterial.
\<close>

definition clone_obj ::
  "(heap \<Rightarrow> jsval \<Rightarrow> js_error + heap \<times> jsval) \<Rightarrow> heap \<Rightarrow> obj \<Rightarrow> js_error + heap \<times> addr" where
  "clone_obj rec h ob =
     (case ob of
        Obj (Date t) ps \<Rightarrow>
          (case call_method ob ''getTime'' DateProto of
             Some err \<Rightarrow> Inl err
           | None \<Rightarrow> Inr (alloc h (Obj (Date t) [])))
      | Obj (Arr xs) ps \<Rightarrow>
          (case call_method ob ''map'' ArrayProto of
             Some err \<Rightarrow> Inl err
           | None \<Rightarrow>
               (case species ob of
                  Some err \<Rightarrow> Inl err
                | None \<Rightarrow>
                    (case clone_items rec h xs of
                       Inl err \<Rightarrow> Inl err
                     | Inr (h1, ys) \<Rightarrow> Inr (alloc h1 (Obj (Arr ys) [])))))
      | Obj Plain ps \<Rightarrow>
          (if ps = [] then Inr (alloc h (Obj Plain []))
           else (case call_method ob ''hasOwnProperty'' ObjectProto of
                   Some err \<Rightarrow> Inl err
                 | None \<Rightarrow>
                     (case clone_props rec h ps of
                        Inl err \<Rightarrow> Inl err
                      | Inr (h1, qs) \<Rightarrow> Inr (alloc h1 (Obj Plain qs))))))"

text \<open>
  A primitive and a function are returned as they are (\<^verbatim>\<open>typeof obj !== 'object'\<close>); the
  clone of a prototype object is not modelled.
\<close>

definition deepClone_body ::
  "(heap \<Rightarrow> jsval \<Rightarrow> js_error + heap \<times> jsval) \<Rightarrow> heap \<Rightarrow> jsval \<Rightarrow> js_error + heap \<times> jsval" where
  "deepClone_body rec h v =
     (case v of
        VRef a \<Rightarrow>
          (case lookup_obj h a of
             None \<Rightarrow> Inr (h, v)
           | Some ob \<Rightarrow>
               (case clone_obj rec h ob of
                  Inl err \<Rightarrow> Inl err
                | Inr (h1, a1) \<Rightarrow> Inr (h1, VRef a1)))
      | VNative p k \<Rightarrow> (if k = ''__proto__'' then Inl Unmodelled else Inr (h, v))
      | _ \<Rightarrow> Inr (h, v))"

primrec deepClone :: "nat \<Rightarrow> heap \<Rightarrow> jsval \<Rightarrow> js_error + heap \<times> jsval" where
  "deepClone 0 h v = deepClone_body (\<lambda>h x. Inl RangeError) h v"
| "deepClone (Suc n) h v = deepClone_body (deepClone n) h v"

section \<open>The state manager\<close>

text \<open>
  A listener is a function object; the registry compares listeners by identity, so a
  listener is represented by its identity. What a listener does when it is invoked is
  outside the manager: the environment says, for each invocation, whether the listener
  returns or which value it throws. Listeners are taken not to call back into the
  manager or to change the store. Console output and listener invocations are recorded,
  in order, in a trace.
\<close>

type_synonym lid = nat

datatype event =
    Warned string jsval
  | Called lid jsval jsval string
  | ErrorLogged string jsval

record entry =
  h_key :: string
  h_oldValue :: jsval
  h_newValue :: jsval
  h_timestamp :: nat

record env =
  stack :: nat
  call :: "lid \<Rightarrow> jsval \<Rightarrow> jsval \<Rightarrow> string \<Rightarrow> jsval option"

record StateManager =
  store :: heap
  state :: jsval
  listeners :: "(string \<times> lid list) list"
  validators :: "string \<Rightarrow> (jsval \<Rightarrow> string \<Rightarrow> bool) option"
  history :: "entry list"
  trace :: "event list"

subsection \<open>The initial state and the validators\<close>

text \<open>
  The module constant \<^verbatim>\<open>initialState\<close> of \<^verbatim>\<open>AppState.ts\<close>: the store after the module is
  evaluated, and the address of the root object in it.
\<close>

definition module_store :: heap where
  "module_store =
     [Obj Plain [],
      Obj Plain [],
      Obj (Arr []) [],
      Obj (Arr []) [],
      Obj (Arr []) [],
      Obj (Arr []) [],
      Obj (Arr []) [],
      Obj (Arr []) [],
      Obj (Arr []) [],
      Obj Plain
        [(''income'', VRef 3), (''expenses'', VRef 4), (''mileage'', VRef 5),
         (''utilities'', VRef 6), (''taxPayments'', VRef 7), (''savingsGoals'', VRef 8)],
      Obj Plain
        [(''activeTab'', VStr ''overview''),
         (''isLoading'', VBool False),
         (''currentRecord'', VNull),
         (''currentRecordType'', VNull),
         (''selectedHomeOfficeMethod'', VNull),
         (''formStates'', VRef 0),
         (''modalStates'', VRef 1),
         (''notifications'', VRef 2),
         (''data'', VRef 9)]]"

definition initialState :: jsval where
  "initialState = VRef 10"

definition validTabs :: "string list" where
  "validTabs = [''overview'', ''income'', ''expenses'', ''deductions'', ''taxes'', ''goals'']"

definition validTypes :: "string list" where
  "validTypes =
     [''income'', ''expenses'', ''mileage'', ''utilities'', ''tax-payments'', ''savings-goals'']"

text \<open>\<^verbatim>\<open>xs.includes(value)\<close> for a list of strings.\<close>

definition array_includes :: "string list \<Rightarrow> jsval \<Rightarrow> bool" where
  "array_includes xs value = (case value of VStr s \<Rightarrow> s \<in> set xs | _ \<Rightarrow> False)"

text \<open>The four validator functions of \<^verbatim>\<open>setupValidators\<close>, in the order of the source.\<close>

definition activeTab_validator :: "jsval \<Rightarrow> string \<Rightarrow> bool" where
  "activeTab_validator value k = array_includes validTabs value"

definition currentRecordType_validator :: "jsval \<Rightarrow> string \<Rightarrow> bool" where
  "currentRecordType_validator value k =
     (if value = VNull then True else array_includes validTypes value)"

definition homeOfficeMethod_validator :: "jsval \<Rightarrow> string \<Rightarrow> bool" where
  "homeOfficeMethod_validator value k =
     (if value = VNull then True else array_includes [''simplified'', ''actual''] value)"

definition currentRecord_validator :: "jsval \<Rightarrow> string \<Rightarrow> bool" where
  "currentRecord_validator value k =
     (if value = VNull then True else (case value of VNum r \<Rightarrow> r > 0 | _ \<Rightarrow> False))"

definition setupValidators ::
  "(string \<Rightarrow> (jsval \<Rightarrow> string \<Rightarrow> bool) option) \<Rightarrow> (string \<Rightarrow> (jsval \<Rightarrow> string \<Rightarrow> bool) option)" where
  "setupValidators vs =
     vs(''activeTab'' \<mapsto> activeTab_validator,
        ''currentRecordType'' \<mapsto> currentRecordType_validator,
        ''selectHomeOfficeMethod'' \<mapsto> homeOfficeMethod_validator,
        ''currentRecord'' \<mapsto> currentRecord_validator)"

text \<open>
  The constructor: \<^verbatim>\<open>this.state = this.deepClone(initialState); this.setupValidators()\<close>.
  A manager whose state is a built-in function is not modelled.
\<close>

definition new_StateManager :: "env \<Rightarrow> heap \<Rightarrow> jsval \<Rightarrow> js_error + StateManager" where
  "new_StateManager e h init =
     (case deepClone (stack e) h init of
        Inl err \<Rightarrow> Inl err
      | Inr (h1, st) \<Rightarrow>
          (if is_native st then Inl Unmodelled
           else Inr \<lparr>store = h1, state = st, listeners = [],
                     validators = setupValidators Map.empty, history = [], trace = []\<rparr>))"

subsection \<open>Reading\<close>

definition get :: "StateManager \<Rightarrow> string \<Rightarrow> jsval" where
  "get m key = get_member (store m) (state m) key"

text \<open>
  \<^verbatim>\<open>keys.reduce((obj, key) => obj?.[key], start)\<close>: a read on a built-in object is not
  modelled.
\<close>

fun follow :: "heap \<Rightarrow> jsval \<Rightarrow> string list \<Rightarrow> js_error + jsval" where
  "follow h v [] = Inr v"
| "follow h v (key # keys) =
     (if is_native v then Inl Unmodelled else follow h (opt_member h v key) keys)"

definition getNestedFromState :: "heap \<Rightarrow> jsval \<Rightarrow> string \<Rightarrow> js_error + jsval" where
  "getNestedFromState h st path = follow h st (split_dot path)"

definition getNested :: "StateManager \<Rightarrow> string \<Rightarrow> js_error + jsval" where
  "getNested m path = follow (store m) (state m) (split_dot path)"

definition getState :: "env \<Rightarrow> StateManager \<Rightarrow> js_error + heap \<times> jsval" where
  "getState e m = deepClone (stack e) (store m) (state m)"


definition clearHistory :: "StateManager \<Rightarrow> StateManager" where
  "clearHistory m = m\<lparr>history := []\<rparr>"

subsection \<open>Notification\<close>

text \<open>
  One listener invocation inside its own \<^verbatim>\<open>try\<close>/\<^verbatim>\<open>catch\<close>: the call is recorded, and
  when it throws, the error is logged and the loop goes on.
\<close>

definition invoke :: "env \<Rightarrow> string \<Rightarrow> jsval \<Rightarrow> jsval \<Rightarrow> lid \<Rightarrow> event list" where
  "invoke e key newValue oldValue listener =
     (case call e listener newValue oldValue key of
        None \<Rightarrow> [Called listener newValue oldValue key]
      | Some err \<Rightarrow> [Called listener newValue oldValue key, ErrorLogged key err])"

fun forEach_listener :: "env \<Rightarrow> string \<Rightarrow> jsval \<Rightarrow> jsval \<Rightarrow> lid list \<Rightarrow> event list" where
  "forEach_listener e key newValue oldValue [] = []"
| "forEach_listener e key newValue oldValue (listener # ls) =
     invoke e key newValue oldValue listener @ forEach_listener e key newValue oldValue ls"

definition notifyListeners :: "env \<Rightarrow> StateManager \<Rightarrow> string \<Rightarrow> jsval \<Rightarrow> jsval \<Rightarrow> StateManager" where
  "notifyListeners e m key newValue oldValue =
     (case map_of (listeners m) key of
        None \<Rightarrow> m
      | Some ls \<Rightarrow> m\<lparr>trace := trace m @ forEach_listener e key newValue oldValue ls\<rparr>)"

subsection \<open>set\<close>

definition push_history :: "entry list \<Rightarrow> entry \<Rightarrow> entry list" where
  "push_history hs x = (let hs1 = hs @ [x] in if length hs1 > 100 then tl hs1 else hs1)"

definition rejected :: "StateManager \<Rightarrow> string \<Rightarrow> jsval \<Rightarrow> bool" where
  "rejected m key value =
     (case validators m key of None \<Rightarrow> False | Some validator \<Rightarrow> \<not> validator value key)"

definition set_val :: "env \<Rightarrow> nat \<Rightarrow> StateManager \<Rightarrow> string \<Rightarrow> jsval \<Rightarrow> completion \<times> StateManager" where
  "set_val e now m key value =
     (let oldValue = get m key in
      case deepEqual (stack e) (store m) oldValue value of
        None \<Rightarrow> (Throw RangeError, m)
      | Some True \<Rightarrow> (Normal, m)
      | Some False \<Rightarrow>
          (if rejected m key value
           then (Normal, m\<lparr>trace := trace m @ [Warned key value]\<rparr>)
           else (case set_member (store m) (state m) key value of
                   Inl err \<Rightarrow> (Throw err, m)
                 | Inr h1 \<Rightarrow>
                     (case deepClone (stack e) h1 oldValue of
                        Inl err \<Rightarrow> (Throw err, m\<lparr>store := h1\<rparr>)
                      | Inr (h2, oldClone) \<Rightarrow>
                          (case deepClone (stack e) h2 value of
                             Inl err \<Rightarrow> (Throw err, m\<lparr>store := h2\<rparr>)
                           | Inr (h3, newClone) \<Rightarrow>
                               (Normal,
                                notifyListeners e
                                  (m\<lparr>store := h3,
                                     history := push_history (history m)
                                       \<lparr>h_key = key, h_oldValue = oldClone,
                                        h_newValue = newClone, h_timestamp = now\<rparr>\<rparr>)
                                  key value oldValue))))))"

subsection \<open>setNested\<close>

text \<open>
  One step of \<^verbatim>\<open>keys.reduce((obj, key) => { if (!obj[key]) obj[key] = {}; return obj[key]; })\<close>.
  The store is returned also when the step throws: objects created before the throw
  stay created. A step on a built-in object is not modelled.
\<close>

definition vivify :: "heap \<Rightarrow> jsval \<Rightarrow> string \<Rightarrow> heap \<times> (js_error + jsval)" where
  "vivify h ob key =
     (if nullish ob then (h, Inl TypeError)
      else if is_native ob then (h, Inl Unmodelled)
      else if \<not> truthy (get_member h ob key)
      then (let (h1, a) = alloc h (Obj Plain []) in
            case set_member h1 ob key (VRef a) of
              Inl err \<Rightarrow> (h1, Inl err)
            | Inr h2 \<Rightarrow> (h2, Inr (get_member h2 ob key)))
      else (h, Inr (get_member h ob key)))"

fun walk :: "heap \<Rightarrow> jsval \<Rightarrow> string list \<Rightarrow> heap \<times> (js_error + jsval)" where
  "walk h ob [] = (h, Inr ob)"
| "walk h ob (key # keys) =
     (case vivify h ob key of
        (h1, Inl err) \<Rightarrow> (h1, Inl err)
      | (h1, Inr ob1) \<Rightarrow> walk h1 ob1 keys)"

definition setNested :: "env \<Rightarrow> StateManager \<Rightarrow> string \<Rightarrow> jsval \<Rightarrow> completion \<times> StateManager" where
  "setNested e m path value =
     (let keys = split_dot path; lastkey = last keys in
      if lastkey = [] then (Normal, m)
      else (case walk (store m) (state m) (butlast keys) of
              (h1, Inl err) \<Rightarrow> (Throw err, m\<lparr>store := h1\<rparr>)
            | (h1, Inr target) \<Rightarrow>
                (if nullish target then (Throw TypeError, m\<lparr>store := h1\<rparr>)
                 else if is_native target then (Throw Unmodelled, m\<lparr>store := h1\<rparr>)
                 else (let oldValue = get_member h1 target lastkey in
                       case set_member h1 target lastkey value of
                         Inl err \<Rightarrow> (Throw err, m\<lparr>store := h1\<rparr>)
                       | Inr h2 \<Rightarrow>
                           (Normal, notifyListeners e (m\<lparr>store := h2\<rparr>) path value oldValue)))))"

subsection \<open>subscribe\<close>

text \<open>\<^verbatim>\<open>Set.add\<close> and \<^verbatim>\<open>Set.delete\<close> on a set kept in insertion order.\<close>

definition set_add :: "lid \<Rightarrow> lid list \<Rightarrow> lid list" where
  "set_add l ls = (if l \<in> set ls then ls else ls @ [l])"

definition set_delete :: "lid \<Rightarrow> lid list \<Rightarrow> lid list" where
  "set_delete l ls = removeAll l ls"

text \<open>The closure that \<^verbatim>\<open>subscribe\<close> returns, applied to the manager as it is when called.\<close>

definition unsubscribe :: "string \<Rightarrow> lid \<Rightarrow> StateManager \<Rightarrow> StateManager" where
  "unsubscribe keyStr listener m =
     (case map_of (listeners m) keyStr of
        None \<Rightarrow> m
      | Some ls \<Rightarrow>
          (let ls1 = set_delete listener ls in
           if length ls1 = 0
           then m\<lparr>listeners := AList.delete keyStr (listeners m)\<rparr>
           else m\<lparr>listeners := AList.update keyStr ls1 (listeners m)\<rparr>))"

definition subscribe ::
  "StateManager \<Rightarrow> string \<Rightarrow> lid \<Rightarrow> StateManager \<times> (StateManager \<Rightarrow> StateManager)" where
  "subscribe m keyStr listener =
     (let reg1 = (if map_of (listeners m) keyStr = None
                  then AList.update keyStr [] (listeners m) else listeners m);
          reg2 = (case map_of reg1 keyStr of
                    None \<Rightarrow> reg1
                  | Some ls \<Rightarrow> AList.update keyStr (set_add listener ls) reg1)
      in (m\<lparr>listeners := reg2\<rparr>, unsubscribe keyStr listener))"

subsection \<open>reset\<close>

text \<open>
  The loop \<^verbatim>\<open>for (const [key] of this.listeners)\<close>: the new value, the old value, the
  notification.
\<close>

fun reset_loop :: "env \<Rightarrow> jsval \<Rightarrow> StateManager \<Rightarrow> string list \<Rightarrow> completion \<times> StateManager" where
  "reset_loop e oldState m [] = (Normal, m)"
| "reset_loop e oldState m (key # keys) =
     (case getNested m key of
        Inl err \<Rightarrow> (Throw err, m)
      | Inr newValue \<Rightarrow>
          (case getNestedFromState (store m) oldState key of
             Inl err \<Rightarrow> (Throw err, m)
           | Inr oldValue \<Rightarrow>
               reset_loop e oldState (notifyListeners e m key newValue oldValue) keys))"

definition reset :: "env \<Rightarrow> StateManager \<Rightarrow> completion \<times> StateManager" where
  "reset e m =
     (case deepClone (stack e) (store m) (state m) of
        Inl err \<Rightarrow> (Throw err, m)
      | Inr (h1, oldState) \<Rightarrow>
          (case deepClone (stack e) h1 initialState of
             Inl err \<Rightarrow> (Throw err, m\<lparr>store := h1\<rparr>)
           | Inr (h2, st) \<Rightarrow>
               reset_loop e oldState (m\<lparr>store := h2, state := st\<rparr>) (map fst (listeners m))))"

text \<open>The singleton of the store module: \<^verbatim>\<open>new StateManager(initialState)\<close>.\<close>

definition stateManager :: "env \<Rightarrow> js_error + StateManager" where
  "stateManager e = new_StateManager e module_store initialState"

section \<open>Notions used in the statements\<close>

text \<open>The listeners registered under a key, in the order in which they are notified.\<close>

definition registered :: "StateManager \<Rightarrow> string \<Rightarrow> lid list" where
  "registered m key = (case map_of (listeners m) key of None \<Rightarrow> [] | Some ls \<Rightarrow> ls)"

text \<open>The listener invocations and the logged listener errors of a trace.\<close>

fun calls_of :: "event list \<Rightarrow> (lid \<times> jsval \<times> jsval \<times> string) list" where
  "calls_of [] = []"
| "calls_of (Called l a b k # evs) = (l, a, b, k) # calls_of evs"
| "calls_of (ev # evs) = calls_of evs"

fun errors_of :: "event list \<Rightarrow> (string \<times> jsval) list" where
  "errors_of [] = []"
| "errors_of (ErrorLogged k x # evs) = (k, x) # errors_of evs"
| "errors_of (ev # evs) = errors_of evs"

text \<open>How often a trace has a listener invoked for a key.\<close>

definition calls_to :: "lid \<Rightarrow> string \<Rightarrow> event list \<Rightarrow> nat" where
  "calls_to l key evs =
     length (filter (\<lambda>c. fst c = l \<and> snd (snd (snd c)) = key) (calls_of evs))"

text \<open>What a nested call of \<open>deepClone\<close> and of \<open>deepEqual\<close> is, for a given stack.\<close>

definition callee :: "nat \<Rightarrow> heap \<Rightarrow> jsval \<Rightarrow> js_error + heap \<times> jsval" where
  "callee n = (case n of 0 \<Rightarrow> (\<lambda>h x. Inl RangeError) | Suc k \<Rightarrow> deepClone k)"

definition eq_callee :: "nat \<Rightarrow> heap \<Rightarrow> jsval \<Rightarrow> jsval \<Rightarrow> bool option" where
  "eq_callee n h = (case n of 0 \<Rightarrow> (\<lambda>x y. None) | Suc k \<Rightarrow> deepEqual k h)"

fun primitive :: "jsval \<Rightarrow> bool" where
  "primitive (VRef a) = False"
| "primitive (VNative p k) = False"
| "primitive v = True"

text \<open>
  The equality of the specification: two values are equal when they are identical
  (\<^verbatim>\<open>===\<close>), or both are arrays of the same length whose elements are pairwise equal by
  the same rule.
\<close>

inductive js_equal :: "heap \<Rightarrow> jsval \<Rightarrow> jsval \<Rightarrow> bool" for h where
  identical: "strict_eq a b \<Longrightarrow> js_equal h a b"
| arrays: "array_items h a = Some xs \<Longrightarrow> array_items h b = Some ys \<Longrightarrow>
           list_all2 (js_equal h) xs ys \<Longrightarrow> js_equal h a b"

text \<open>Arrays nest at most \<open>n\<close> deep below a value: \<open>deepEqual\<close> then stays within a stack of \<open>n\<close>.\<close>

primrec array_depth :: "nat \<Rightarrow> heap \<Rightarrow> jsval \<Rightarrow> bool" where
  "array_depth 0 h v = (case array_items h v of None \<Rightarrow> True | Some xs \<Rightarrow> xs = [])"
| "array_depth (Suc n) h v =
     (case array_items h v of None \<Rightarrow> True | Some xs \<Rightarrow> list_all (array_depth n h) xs)"

text \<open>
  No own property of the object has the name of a method that \<open>deepClone\<close> calls on it
  (\<^verbatim>\<open>getTime\<close> on a date, \<^verbatim>\<open>map\<close> and through it \<^verbatim>\<open>constructor\<close> on an array,
  \<^verbatim>\<open>hasOwnProperty\<close> on another object), and none of an object that is copied property by
  property has the name \<^verbatim>\<open>__proto__\<close>: the calls then reach the methods of the prototype.
\<close>

fun clonable :: "obj \<Rightarrow> bool" where
  "clonable (Obj Plain ps) =
     (map_of ps ''hasOwnProperty'' = None \<and> map_of ps ''__proto__'' = None)"
| "clonable (Obj (Arr xs) ps) = (map_of ps ''map'' = None \<and> map_of ps ''constructor'' = None)"
| "clonable (Obj (Date t) ps) = (map_of ps ''getTime'' = None)"

text \<open>
  Objects nest at most \<open>n\<close> deep below a value, every reference met on the way is in the
  store, every object met is clonable and no prototype object is met: \<open>deepClone\<close> then
  stays within a stack of \<open>n\<close> and within what is modelled.
\<close>

primrec fits :: "nat \<Rightarrow> heap \<Rightarrow> jsval \<Rightarrow> bool" where
  "fits 0 h v =
     (case v of
        VRef a \<Rightarrow>
          (case lookup_obj h a of
             None \<Rightarrow> False
           | Some (Obj Plain ps) \<Rightarrow> ps = []
           | Some (Obj (Arr xs) ps) \<Rightarrow> clonable (Obj (Arr xs) ps) \<and> xs = []
           | Some (Obj (Date t) ps) \<Rightarrow> clonable (Obj (Date t) ps))
      | VNative p k \<Rightarrow> k \<noteq> ''__proto__''
      | _ \<Rightarrow> True)"
| "fits (Suc n) h v =
     (case v of
        VRef a \<Rightarrow>
          (case lookup_obj h a of
             None \<Rightarrow> False
           | Some (Obj Plain ps) \<Rightarrow>
               clonable (Obj Plain ps) \<and> list_all (\<lambda>p. fits n h (snd p)) ps
           | Some (Obj (Arr xs) ps) \<Rightarrow>
               clonable (Obj (Arr xs) ps) \<and> list_all (fits n h) xs
           | Some (Obj (Date t) ps) \<Rightarrow> clonable (Obj (Date t) ps))
      | VNative p k \<Rightarrow> k \<noteq> ''__proto__''
      | _ \<Rightarrow> True)"

text \<open>The state root is a plain object of the store (as the constructor and \<open>reset\<close> leave it).\<close>

fun is_plain :: "heap \<Rightarrow> jsval \<Rightarrow> bool" where
  "is_plain h (VRef a) = (case lookup_obj h a of Some (Obj Plain ps) \<Rightarrow> True | _ \<Rightarrow> False)"
| "is_plain h v = False"

definition plain_root :: "StateManager \<Rightarrow> bool" where
  "plain_root m = is_plain (store m) (state m)"

definition no_empty_sets :: "StateManager \<Rightarrow> bool" where
  "no_empty_sets m = list_all (\<lambda>p. snd p \<noteq> []) (listeners m)"

text \<open>
  The assignment \<^verbatim>\<open>this.state[key] = value\<close> of \<open>set\<close> is carried out, and the old and the
  new value can then be cloned for the history (the clones are taken after the
  assignment).
\<close>

definition storable :: "env \<Rightarrow> StateManager \<Rightarrow> string \<Rightarrow> jsval \<Rightarrow> bool" where
  "storable e m key value =
     (case set_member (store m) (state m) key value of
        Inl err \<Rightarrow> False
      | Inr h1 \<Rightarrow> fits (stack e) h1 (get m key) \<and> fits (stack e) h1 value)"

text \<open>
  A call of \<open>set\<close> passes when \<open>deepEqual\<close> tells the value apart from the stored one, no
  validator rejects it, and it is storable.
\<close>

definition passes :: "env \<Rightarrow> StateManager \<Rightarrow> string \<Rightarrow> jsval \<Rightarrow> bool" where
  "passes e m key value =
     (deepEqual (stack e) (store m) (get m key) value = Some False
      \<and> \<not> rejected m key value
      \<and> storable e m key value)"

text \<open>
  An object of the store (not a built-in one). The assignment \<^verbatim>\<open>obj[key] = v\<close> stores \<open>v\<close>
  under \<open>key\<close> in such an object but in two cases: when it goes to the accessor
  \<^verbatim>\<open>__proto__\<close>, and when the object is an array and the key is \<^verbatim>\<open>length\<close>, where a number
  that is a valid length is stored, and any other value is refused or converted to one.
\<close>

fun is_object :: "heap \<Rightarrow> jsval \<Rightarrow> bool" where
  "is_object h (VRef a) = (lookup_obj h a \<noteq> None)"
| "is_object h v = False"




text \<open>No member of \<^verbatim>\<open>Object.prototype\<close> has this name: a new object has nothing under it.\<close>

definition unnamed :: "string \<Rightarrow> bool" where
  "unnamed k = (inherited [ObjectProto] k = VUndefined)"




text \<open>The properties read on the way down a path: each object with the key read on it.\<close>

fun cells :: "heap \<Rightarrow> jsval \<Rightarrow> string list \<Rightarrow> (jsval \<times> string) list" where
  "cells h ob [] = []"
| "cells h ob (key # keys) = (ob, key) # cells h (opt_member h ob key) keys"


text \<open>Sequences of calls on the manager.\<close>

datatype op =
    Set nat string jsval
  | SetNested string jsval
  | Subscribe string lid
  | Unsubscribe string lid
  | Reset
  | ClearHistory

fun apply_op :: "env \<Rightarrow> StateManager \<Rightarrow> op \<Rightarrow> StateManager" where
  "apply_op e m (Set now key value) = snd (set_val e now m key value)"
| "apply_op e m (SetNested path value) = snd (setNested e m path value)"
| "apply_op e m (Subscribe key l) = fst (subscribe m key l)"
| "apply_op e m (Unsubscribe key l) = unsubscribe key l m"
| "apply_op e m Reset = snd (reset e m)"
| "apply_op e m ClearHistory = clearHistory m"

definition run :: "env \<Rightarrow> StateManager \<Rightarrow> op list \<Rightarrow> StateManager" where
  "run e m ops = foldl (apply_op e) m ops"





subsection \<open>Notions for reset\<close>







text \<open>
  A value is apart from the first \<open>k\<close> objects of the store when no address below \<open>k\<close>
  occurs in it, down to a depth: it shares no object with them.
\<close>

primrec apart :: "nat \<Rightarrow> nat \<Rightarrow> heap \<Rightarrow> jsval \<Rightarrow> bool" where
  "apart 0 k h v = (case v of VRef a \<Rightarrow> k \<le> a | _ \<Rightarrow> True)"
| "apart (Suc d) k h v =
     (case v of
        VRef a \<Rightarrow>
          k \<le> a \<and>
          (case lookup_obj h a of
             None \<Rightarrow> True
           | Some (Obj Plain ps) \<Rightarrow> list_all (\<lambda>p. apart d k h (snd p)) ps
           | Some (Obj (Arr xs) ps) \<Rightarrow> list_all (apart d k h) xs
           | Some (Obj (Date t) ps) \<Rightarrow> True)
      | _ \<Rightarrow> True)"

text \<open>The registry is a map of sets: no key twice, no listener twice under a key.\<close>

definition registry_ok :: "StateManager \<Rightarrow> bool" where
  "registry_ok m =
     (distinct (map fst (listeners m)) \<and> list_all (\<lambda>p. distinct (snd p)) (listeners m))"



subsection \<open>The manager of the store module, and example environments\<close>

text \<open>
  The store and the manager that \<^verbatim>\<open>new StateManager(initialState)\<close> yields on the module
  store: the clone of the initial state occupies the addresses 11 to 21.
\<close>

definition fresh_root :: "(string \<times> jsval) list" where
  "fresh_root =
     [(''activeTab'', VStr ''overview''),
      (''isLoading'', VBool False),
      (''currentRecord'', VNull),
      (''currentRecordType'', VNull),
      (''selectedHomeOfficeMethod'', VNull),
      (''formStates'', VRef 11),
      (''modalStates'', VRef 12),
      (''notifications'', VRef 13),
      (''data'', VRef 20)]"

definition fresh_store :: heap where
  "fresh_store = module_store @
     [Obj Plain [], Obj Plain [], Obj (Arr []) [],
      Obj (Arr []) [], Obj (Arr []) [], Obj (Arr []) [],
      Obj (Arr []) [], Obj (Arr []) [], Obj (Arr []) [],
      Obj Plain
        [(''income'', VRef 14), (''expenses'', VRef 15), (''mileage'', VRef 16),
         (''utilities'', VRef 17), (''taxPayments'', VRef 18), (''savingsGoals'', VRef 19)],
      Obj Plain fresh_root]"

definition fresh :: StateManager where
  "fresh = \<lparr>store = fresh_store, state = VRef 21, listeners = [],
            validators = setupValidators Map.empty, history = [], trace = []\<rparr>"

text \<open>An environment whose listeners all return, and one in which listener 3 throws.\<close>

definition quiet :: env where
  "quiet = \<lparr>stack = 2, call = (\<lambda>l a b k. None)\<rparr>"

definition faulty :: env where
  "faulty = \<lparr>stack = 2, call = (\<lambda>l a b k. if l = 3 then Some (VStr ''boom'') else None)\<rparr>"

definition two_listeners :: StateManager where
  "two_listeners = fst (subscribe (fst (subscribe fresh ''activeTab'' 3)) ''activeTab'' 4)"

text \<open>
  The closure of \<^verbatim>\<open>subscribe('activeTab', l3)\<close> on the manager of the store module, and the
  manager after that call, a call of the closure, and \<^verbatim>\<open>subscribe('activeTab', l3)\<close> again.
\<close>

definition first_closure :: "StateManager \<Rightarrow> StateManager" where
  "first_closure = snd (subscribe fresh ''activeTab'' 3)"

definition resubscribed :: StateManager where
  "resubscribed =
     fst (subscribe (first_closure (fst (subscribe fresh ''activeTab'' 3))) ''activeTab'' 3)"

text \<open>The manager after \<^verbatim>\<open>subscribe('isLoading', l2)\<close> and \<^verbatim>\<open>setNested('isLoading', NaN)\<close>.\<close>

definition nan_manager :: StateManager where
  "nan_manager = snd (setNested quiet (fst (subscribe fresh ''isLoading'' 2)) ''isLoading'' VNaN)"

text \<open>
  A manager whose \<^verbatim>\<open>notifications\<close> is the array \<^verbatim>\<open>[1, 2]\<close> at address 22 and whose
  \<^verbatim>\<open>formStates\<close> is the object \<^verbatim>\<open>{a: 1}\<close> at address 24, in a store that holds a second
  array and a second object with the same contents at the addresses 23 and 25.
\<close>

definition demo_store :: heap where
  "demo_store =
     (fresh_store @
      [Obj (Arr [VNum 1, VNum 2]) [], Obj (Arr [VNum 1, VNum 2]) [],
       Obj Plain [(''a'', VNum 1)], Obj Plain [(''a'', VNum 1)]])
     [21 := Obj Plain (AList.update ''notifications'' (VRef 22)
                        (AList.update ''formStates'' (VRef 24) fresh_root))]"

definition demo :: StateManager where
  "demo = fresh\<lparr>store := demo_store\<rparr>"

text \<open>The manager of the store module with a listener under a key.\<close>

definition listening :: "string \<Rightarrow> StateManager" where
  "listening key = fst (subscribe fresh key 2)"


text \<open>
  The manager of the store module after two objects \<^verbatim>\<open>{a: 1}\<close> were created (addresses 22
  and 23) and \<^verbatim>\<open>setNested('activeTab', o22)\<close> stored the first one under a validated key.
\<close>

definition object_tab :: StateManager where
  "object_tab =
     snd (setNested quiet
            (fresh\<lparr>store := fresh_store @ [Obj Plain [(''a'', VNum 1)], Obj Plain [(''a'', VNum 1)]]\<rparr>)
            ''activeTab'' (VRef 22))"




text \<open>
  The manager of the store module with a listener under \<^verbatim>\<open>currentRecord\<close>, after
  \<^verbatim>\<open>setNested('currentRecord.hasOwnProperty', 'x')\<close>.
\<close>

definition shadowed_record :: StateManager where
  "shadowed_record =
     snd (setNested quiet (listening ''currentRecord'') ''currentRecord.hasOwnProperty''
            (VStr ''x''))"
section \<open>Basic properties\<close>

subsection \<open>Unfolding the bounded recursions\<close>

lemma deepClone_unfold: "deepClone n h v = deepClone_body (callee n) h v"
  by (cases n) (simp_all add: callee_def)

lemma callee_Suc: "callee (Suc n) = deepClone n"
  by (simp add: callee_def)

lemma deepEqual_unfold: "deepEqual n h a b = deepEqual_body (eq_callee n h) h a b"
  by (cases n) (simp_all add: eq_callee_def)

lemma eq_callee_Suc: "eq_callee (Suc n) h = deepEqual n h"
  by (simp add: eq_callee_def)

lemma deepEqual_strict: "strict_eq a b \<Longrightarrow> deepEqual n h a b = Some True"
  by (simp add: deepEqual_unfold deepEqual_body_def del: deepEqual.simps)

lemma deepEqual_non_array:
  "array_items h a = None \<Longrightarrow> deepEqual n h a b = Some (strict_eq a b)"
  by (auto simp: deepEqual_unfold deepEqual_body_def strict_eq_def simp del: deepEqual.simps)

lemma array_items_primitive: "primitive v \<Longrightarrow> array_items h v = None"
  by (cases v) (simp_all add: array_items_def)

lemma deepClone_primitive: "primitive v \<Longrightarrow> deepClone n h v = Inr (h, v)"
  by (cases v) (simp_all add: deepClone_unfold deepClone_body_def del: deepClone.simps)

subsection \<open>Cloning only extends the store\<close>

lemma clone_items_grows:
  assumes "\<And>h x h' y. rec h x = Inr (h', y) \<Longrightarrow> \<exists>zs. h' = h @ zs"
  shows "clone_items rec h xs = Inr (h', ys) \<Longrightarrow> \<exists>zs. h' = h @ zs"
proof (induction xs arbitrary: h h' ys)
  case Nil
  then show ?case by simp
next
  case (Cons x xs)
  from Cons.prems obtain h1 y h2 ys2 where
    a: "rec h x = Inr (h1, y)" and b: "clone_items rec h1 xs = Inr (h2, ys2)" and c: "h' = h2"
    by (auto split: sum.splits)
  from assms[OF a] obtain z1 where "h1 = h @ z1" by blast
  moreover from Cons.IH[OF b] obtain z2 where "h2 = h1 @ z2" by blast
  ultimately show ?case using c by simp
qed

lemma clone_props_grows:
  assumes "\<And>h x h' y. rec h x = Inr (h', y) \<Longrightarrow> \<exists>zs. h' = h @ zs"
  shows "clone_props rec h ps = Inr (h', qs) \<Longrightarrow> \<exists>zs. h' = h @ zs"
proof (induction ps arbitrary: h h' qs)
  case Nil
  then show ?case by simp
next
  case (Cons p ps)
  obtain k x where p: "p = (k, x)" by (cases p)
  from Cons.prems p obtain h1 y h2 qs2 where
    a: "rec h x = Inr (h1, y)" and b: "clone_props rec h1 ps = Inr (h2, qs2)" and c: "h' = h2"
    by (auto split: sum.splits if_splits)
  from assms[OF a] obtain z1 where "h1 = h @ z1" by blast
  moreover from Cons.IH[OF b] obtain z2 where "h2 = h1 @ z2" by blast
  ultimately show ?case using c by simp
qed

lemma clone_obj_grows:
  assumes "\<And>h x h' y. rec h x = Inr (h', y) \<Longrightarrow> \<exists>zs. h' = h @ zs"
  shows "clone_obj rec h ob = Inr (h', a) \<Longrightarrow> \<exists>zs. h' = h @ zs"
  using clone_items_grows[of rec, OF assms] clone_props_grows[of rec, OF assms]
  by (fastforce simp: clone_obj_def alloc_def
      split: option.splits sum.splits obj.splits okind.splits if_splits)

lemma deepClone_body_grows:
  assumes "\<And>h x h' y. rec h x = Inr (h', y) \<Longrightarrow> \<exists>zs. h' = h @ zs"
  shows "deepClone_body rec h v = Inr (h', v') \<Longrightarrow> \<exists>zs. h' = h @ zs"
  using clone_obj_grows[of rec, OF assms]
  by (fastforce simp: deepClone_body_def
      split: jsval.splits option.splits sum.splits if_splits)

lemma deepClone_grows: "deepClone n h v = Inr (h', v') \<Longrightarrow> \<exists>zs. h' = h @ zs"
proof (induction n arbitrary: h v h' v')
  case 0
  then show ?case
    using deepClone_body_grows[of "\<lambda>h x. Inl RangeError"] by simp
next
  case (Suc n)
  then show ?case
    using deepClone_body_grows[of "deepClone n"] by simp
qed

subsection \<open>Reading and writing properties\<close>

lemma get_member_append:
  "a < length h \<Longrightarrow> get_member (h @ zs) (VRef a) k = get_member h (VRef a) k"
  by (simp add: lookup_obj_def nth_append)

lemma own_update: "own_or_inherited kind (AList.update k v ps) k = v"
  by (simp add: own_or_inherited_def update_conv')

lemma own_update_other:
  "k' \<noteq> k \<Longrightarrow> own_or_inherited kind (AList.update k v ps) k' = own_or_inherited kind ps k'"
  by (simp add: own_or_inherited_def update_conv')

lemma own_found: "map_of ps k = Some v \<Longrightarrow> own_or_inherited kind ps k = v"
  by (simp add: own_or_inherited_def)

lemma in_members:
  "''hasOwnProperty'' \<in> set (members ObjectProto)"
  "''map'' \<in> set (members ArrayProto)"
  "''getTime'' \<in> set (members DateProto)"
  "''constructor'' \<in> set (members ArrayProto)"
  by (simp_all add: members_def)

lemma index_of_names [simp]:
  "index_of_key ''length'' = None" "index_of_key ''map'' = None"
  "index_of_key ''constructor'' = None" "index_of_key ''__proto__'' = None"
  by (simp_all add: index_of_key_def is_digit_def)

lemma method_array:
  "call_method (Obj (Arr xs) ps) ''map'' ArrayProto = None \<longleftrightarrow>
     (map_of ps ''map'' = None \<or> map_of ps ''map'' = Some (VNative ArrayProto ''map''))"
  by (auto simp: call_method_def own_or_inherited_def in_members canonical_def
      split: option.splits jsval.splits)

lemma method_date:
  "call_method (Obj (Date t) ps) ''getTime'' DateProto = None \<longleftrightarrow>
     (map_of ps ''getTime'' = None \<or> map_of ps ''getTime'' = Some (VNative DateProto ''getTime''))"
  by (auto simp: call_method_def own_or_inherited_def in_members canonical_def
      split: option.splits jsval.splits)

lemma species_array:
  "species (Obj (Arr xs) ps) = None \<longleftrightarrow>
     (case map_of ps ''constructor'' of
        None \<Rightarrow> True
      | Some v \<Rightarrow> v = VUndefined \<or> \<not> primitive v)"
  by (auto simp: species_def own_or_inherited_def in_members canonical_def
      split: option.splits jsval.splits)

lemma method_plain:
  "call_method (Obj Plain ps) ''hasOwnProperty'' ObjectProto = None \<longleftrightarrow>
     (map_of ps ''hasOwnProperty'' = None
      \<or> map_of ps ''hasOwnProperty'' = Some (VNative ObjectProto ''hasOwnProperty''))"
  by (auto simp: call_method_def own_or_inherited_def in_members canonical_def
      split: option.splits jsval.splits)

lemma method_inherited:
  "map_of ps ''hasOwnProperty'' = None \<Longrightarrow>
     call_method (Obj Plain ps) ''hasOwnProperty'' ObjectProto = None"
  "map_of ps ''map'' = None \<Longrightarrow> call_method (Obj (Arr xs) ps) ''map'' ArrayProto = None"
  "map_of ps ''getTime'' = None \<Longrightarrow> call_method (Obj (Date t) ps) ''getTime'' DateProto = None"
  "map_of ps ''constructor'' = None \<Longrightarrow> species (Obj (Arr xs) ps) = None"
  by (simp_all add: method_array method_date method_plain species_array)

lemma clonable_calls:
  "clonable (Obj Plain ps) \<Longrightarrow> call_method (Obj Plain ps) ''hasOwnProperty'' ObjectProto = None"
  "clonable (Obj (Arr xs) ps) \<Longrightarrow> call_method (Obj (Arr xs) ps) ''map'' ArrayProto = None"
  "clonable (Obj (Arr xs) ps) \<Longrightarrow> species (Obj (Arr xs) ps) = None"
  "clonable (Obj (Date t) ps) \<Longrightarrow> call_method (Obj (Date t) ps) ''getTime'' DateProto = None"
  by (simp_all add: method_inherited)

lemma get_after_set_plain:
  "lookup_obj h a = Some (Obj Plain ps) \<Longrightarrow>
   get_member (h[a := Obj Plain (AList.update k v ps)] @ zs) (VRef a) k = v"
  by (auto simp: lookup_obj_def nth_append own_update split: if_splits)

lemma set_member_plain:
  "lookup_obj h a = Some (Obj Plain ps) \<Longrightarrow> k \<noteq> ''__proto__'' \<Longrightarrow>
   set_member h (VRef a) k v = Inr (h[a := Obj Plain (AList.update k v ps)])"
  by (simp add: put_def)


lemma follow_single: "\<not> is_native v \<Longrightarrow> follow h v [k] = Inr (opt_member h v k)"
  by simp



subsection \<open>Notification touches the trace only\<close>

lemma calls_of_append: "calls_of (xs @ ys) = calls_of xs @ calls_of ys"
  by (induction xs rule: calls_of.induct) simp_all

lemma errors_of_append: "errors_of (xs @ ys) = errors_of xs @ errors_of ys"
  by (induction xs rule: errors_of.induct) simp_all

lemma calls_of_invoke: "calls_of (invoke e key nv ov l) = [(l, nv, ov, key)]"
  by (simp add: invoke_def split: option.splits)

lemma calls_of_forEach:
  "calls_of (forEach_listener e key nv ov ls) = map (\<lambda>l. (l, nv, ov, key)) ls"
  by (induction ls) (simp_all add: calls_of_append calls_of_invoke)

lemma errors_of_invoke:
  "errors_of (invoke e key nv ov l) =
     (case call e l nv ov key of None \<Rightarrow> [] | Some err \<Rightarrow> [(key, err)])"
  by (simp add: invoke_def split: option.splits)

lemma errors_of_forEach:
  "errors_of (forEach_listener e key nv ov ls) =
     concat (map (\<lambda>l. case call e l nv ov key of None \<Rightarrow> [] | Some err \<Rightarrow> [(key, err)]) ls)"
  by (induction ls) (simp_all add: errors_of_append errors_of_invoke)

lemma registered_update [simp]:
  "registered (m\<lparr>store := h\<rparr>) k = registered m k"
  "registered (m\<lparr>state := st\<rparr>) k = registered m k"
  "registered (m\<lparr>history := hs\<rparr>) k = registered m k"
  "registered (m\<lparr>trace := t\<rparr>) k = registered m k"
  by (simp_all add: registered_def)

lemma notifyListeners_eq:
  "notifyListeners e m key nv ov =
     m\<lparr>trace := trace m @ forEach_listener e key nv ov (registered m key)\<rparr>"
  by (simp add: notifyListeners_def registered_def split: option.splits)

lemma notifyListeners_trace:
  "trace (notifyListeners e m key nv ov) =
     trace m @ forEach_listener e key nv ov (registered m key)"
  by (simp add: notifyListeners_eq)

lemma notifyListeners_fields [simp]:
  "store (notifyListeners e m key nv ov) = store m"
  "state (notifyListeners e m key nv ov) = state m"
  "listeners (notifyListeners e m key nv ov) = listeners m"
  "validators (notifyListeners e m key nv ov) = validators m"
  "history (notifyListeners e m key nv ov) = history m"
  by (simp_all add: notifyListeners_eq)

subsection \<open>The registry\<close>

lemma map_of_update_same: "map_of (AList.update k v al) k = Some v"
  by (simp add: update_conv')

lemma map_of_update_other: "k' \<noteq> k \<Longrightarrow> map_of (AList.update k v al) k' = map_of al k'"
  by (simp add: update_conv')

lemma map_of_delete_same: "map_of (AList.delete k al) k = None"
  by (simp add: delete_conv')

lemma map_of_delete_other: "k' \<noteq> k \<Longrightarrow> map_of (AList.delete k al) k' = map_of al k'"
  by (simp add: delete_conv')

lemma update_idem: "map_of al k = Some v \<Longrightarrow> AList.update k v al = al"
  by (induction al) (auto split: if_splits)

lemma list_all_update:
  "list_all P al \<Longrightarrow> P (k, v) \<Longrightarrow> list_all P (AList.update k v al)"
  by (induction al) auto

lemma list_all_delete: "list_all P al \<Longrightarrow> list_all P (AList.delete k al)"
  by (induction al) auto

lemma set_add_nonempty: "set_add l ls \<noteq> []"
  by (auto simp: set_add_def)

lemma registered_subscribe:
  "registered (fst (subscribe m key l)) key = set_add l (registered m key)"
  by (simp add: subscribe_def registered_def Let_def map_of_update_same split: option.splits)

lemma subscribe_other:
  "k' \<noteq> key \<Longrightarrow> map_of (listeners (fst (subscribe m key l))) k' = map_of (listeners m) k'"
  by (simp add: subscribe_def Let_def map_of_update_other map_of_update_same split: option.splits)

lemma snd_subscribe: "snd (subscribe m key l) = unsubscribe key l"
  by (simp add: subscribe_def Let_def)

lemma subscribe_fields [simp]:
  "store (fst (subscribe m key l)) = store m"
  "state (fst (subscribe m key l)) = state m"
  "validators (fst (subscribe m key l)) = validators m"
  "history (fst (subscribe m key l)) = history m"
  "trace (fst (subscribe m key l)) = trace m"
  by (simp_all add: subscribe_def Let_def)

lemma get_subscribe [simp]: "get (fst (subscribe m key l)) k = get m k"
  by (simp add: get_def)

lemma registered_unsubscribe:
  "registered (unsubscribe key l m) key = removeAll l (registered m key)"
  by (simp add: unsubscribe_def registered_def set_delete_def Let_def map_of_update_same
      map_of_delete_same split: option.splits)

lemma unsubscribe_other:
  "k' \<noteq> key \<Longrightarrow> map_of (listeners (unsubscribe key l m)) k' = map_of (listeners m) k'"
  by (simp add: unsubscribe_def Let_def map_of_update_other map_of_delete_other split: option.splits)

lemma unsubscribe_pruned:
  "removeAll l (registered m key) = [] \<Longrightarrow> map_of (listeners (unsubscribe key l m)) key = None"
  by (simp add: unsubscribe_def registered_def set_delete_def Let_def map_of_delete_same
      split: option.splits)

lemma unsubscribe_idem: "unsubscribe key l (unsubscribe key l m) = unsubscribe key l m"
proof (cases "map_of (listeners m) key")
  case None
  then show ?thesis by (simp add: unsubscribe_def)
next
  case (Some ls)
  show ?thesis
  proof (cases "removeAll l ls = []")
    case True
    then show ?thesis using Some
      by (simp add: unsubscribe_def set_delete_def map_of_delete_same)
  next
    case False
    then show ?thesis using Some
      by (simp add: unsubscribe_def set_delete_def map_of_update_same Let_def)
  qed
qed

lemma unsubscribe_fields [simp]:
  "store (unsubscribe key l m) = store m"
  "state (unsubscribe key l m) = state m"
  "validators (unsubscribe key l m) = validators m"
  "history (unsubscribe key l m) = history m"
  "trace (unsubscribe key l m) = trace m"
  by (simp_all add: unsubscribe_def Let_def split: option.splits)

lemma no_empty_sets_unsubscribe: "no_empty_sets m \<Longrightarrow> no_empty_sets (unsubscribe key l m)"
  by (auto simp: no_empty_sets_def unsubscribe_def set_delete_def Let_def
      intro: list_all_update list_all_delete split: option.splits)

lemma no_empty_sets_subscribe: "no_empty_sets m \<Longrightarrow> no_empty_sets (fst (subscribe m key l))"
  by (auto simp: no_empty_sets_def subscribe_def Let_def map_of_update_same set_add_nonempty
      intro!: list_all_update split: option.splits)

subsection \<open>The outcomes of set\<close>

lemma is_plainD:
  "is_plain h v \<Longrightarrow> \<exists>a ps. v = VRef a \<and> lookup_obj h a = Some (Obj Plain ps)"
  by (cases v) (auto split: option.splits obj.splits okind.splits)

lemma plain_rootD:
  "plain_root m \<Longrightarrow> \<exists>a ps. state m = VRef a \<and> lookup_obj (store m) a = Some (Obj Plain ps)"
  unfolding plain_root_def by (rule is_plainD)

lemma set_val_noop:
  "deepEqual (stack e) (store m) (get m key) value = Some True \<Longrightarrow>
   set_val e now m key value = (Normal, m)"
  by (simp add: set_val_def)

lemma set_val_rejected:
  "deepEqual (stack e) (store m) (get m key) value = Some False \<Longrightarrow> rejected m key value \<Longrightarrow>
   set_val e now m key value = (Normal, m\<lparr>trace := trace m @ [Warned key value]\<rparr>)"
  by (simp add: set_val_def)

lemma set_val_get_committed:
  assumes "deepEqual (stack e) (store m) (get m key) value = Some False"
    and "\<not> rejected m key value" and "plain_root m" and "key \<noteq> ''__proto__''"
  shows "get (snd (set_val e now m key value)) key = value"
proof -
  from plain_rootD[OF assms(3)] obtain a ps where st: "state m = VRef a"
    and lk: "lookup_obj (store m) a = Some (Obj Plain ps)"
    by blast
  let ?h1 = "(store m)[a := Obj Plain (AList.update key value ps)]"
  have sm: "set_member (store m) (state m) key value = Inr ?h1"
    using set_member_plain[OF lk assms(4)] st by simp
  have g0: "get_member (?h1 @ zs) (VRef a) key = value" for zs
    using get_after_set_plain[OF lk] .
  have g1: "get_member ?h1 (VRef a) key = value"
    using g0[of "[]"] by simp
  show ?thesis
  proof (cases "deepClone (stack e) ?h1 (get m key)")
    case (Inl err)
    then show ?thesis
      using assms(1,2) st sm g1 by (simp add: set_val_def get_def)
  next
    case (Inr r)
    obtain h2 oc where r: "r = (h2, oc)" by (cases r)
    from deepClone_grows Inr r obtain z1 where h2: "h2 = ?h1 @ z1" by blast
    show ?thesis
    proof (cases "deepClone (stack e) h2 value")
      case (Inl err)
      then show ?thesis
        using assms(1,2) st sm \<open>deepClone (stack e) ?h1 (get m key) = Inr r\<close> r h2 g0
        by (simp add: set_val_def get_def)
    next
      case (Inr r3)
      obtain h3 nc where r3: "r3 = (h3, nc)" by (cases r3)
      from deepClone_grows Inr r3 obtain z2 where h3: "h3 = h2 @ z2" by blast
      show ?thesis
        using assms(1,2) st sm \<open>deepClone (stack e) ?h1 (get m key) = Inr r\<close> r Inr r3 h2 h3
          g0[of "z1 @ z2"]
        by (simp add: set_val_def get_def)
    qed
  qed
qed

lemma set_val_completion_call:
  "fst (set_val (e\<lparr>call := c\<rparr>) now m key v) = fst (set_val e now m key v)"
  by (simp add: set_val_def Let_def split: option.splits bool.splits sum.splits prod.splits)

lemma setNested_completion_call:
  "fst (setNested (e\<lparr>call := c\<rparr>) m path v) = fst (setNested e m path v)"
  by (simp add: setNested_def Let_def split: option.splits bool.splits sum.splits prod.splits)

lemma reset_loop_completion:
  "store m' = store m \<Longrightarrow> state m' = state m \<Longrightarrow>
   fst (reset_loop e' old m' keys) = fst (reset_loop e old m keys)"
proof (induction keys arbitrary: m m')
  case Nil
  then show ?case by simp
next
  case (Cons key keys)
  have "fst (reset_loop e' old (notifyListeners e' m' key nv ov) keys) =
        fst (reset_loop e old (notifyListeners e m key nv ov) keys)" for nv ov
    by (rule Cons.IH) (simp_all add: Cons.prems)
  then show ?case
    using Cons.prems by (simp add: getNested_def split: sum.splits)
qed

lemma reset_completion_call:
  "fst (reset (e\<lparr>call := c\<rparr>) m) = fst (reset e m)"
  by (auto simp: reset_def intro: reset_loop_completion split: sum.splits prod.splits)

subsection \<open>The manager of the store module\<close>

lemma deepClone_module_store:
  "deepClone (Suc (Suc n)) module_store initialState = Inr (fresh_store, VRef 21)"
  by (simp add: deepClone_unfold callee_Suc initialState_def module_store_def fresh_store_def
      fresh_root_def deepClone_body_def lookup_obj_def clone_obj_def alloc_def
      method_inherited
      del: deepClone.simps)

lemma stateManager_value:
  assumes "2 \<le> stack e"
  shows "stateManager e = Inr fresh"
proof -
  from assms obtain n where n: "stack e = Suc (Suc n)"
    by (metis add_2_eq_Suc le_Suc_ex)
  show ?thesis
    by (simp add: stateManager_def new_StateManager_def n deepClone_module_store fresh_def
        del: deepClone.simps)
qed

lemma stateManager_quiet: "stateManager quiet = Inr fresh"
  by (rule stateManager_value) (simp add: quiet_def)

lemma fresh_fields [simp]:
  "state fresh = VRef 21" "listeners fresh = []" "history fresh = []" "trace fresh = []"
  "validators fresh = setupValidators Map.empty"
  by (simp_all add: fresh_def)

lemma root_fresh: "lookup_obj (store fresh) 21 = Some (Obj Plain fresh_root)"
  by (simp add: fresh_def fresh_store_def module_store_def lookup_obj_def)

lemma get_fresh: "get fresh k = own_or_inherited Plain fresh_root k"
  by (simp add: get_def root_fresh)

lemma plain_root_fresh: "plain_root fresh"
  by (simp add: plain_root_def root_fresh)

lemma registered_fresh: "registered fresh k = []"
  by (simp add: registered_def)

section \<open>Cloning\<close>

subsection \<open>Cloning stays within the stack on values of bounded depth\<close>

lemma lookup_obj_append: "lookup_obj h a = Some ob \<Longrightarrow> lookup_obj (h @ zs) a = Some ob"
  by (auto simp: lookup_obj_def nth_append split: if_splits)

lemma clone_obj_plain:
  "clonable (Obj Plain ps) \<Longrightarrow>
   clone_obj rec h (Obj Plain ps) =
     (case clone_props rec h ps of
        Inl err \<Rightarrow> Inl err
      | Inr (h1, qs) \<Rightarrow> Inr (h1 @ [Obj Plain qs], length h1))"
  by (cases ps)
     (simp_all add: clone_obj_def alloc_def method_inherited split: sum.splits prod.splits)

lemma clone_obj_array:
  "clonable (Obj (Arr xs) ps) \<Longrightarrow>
   clone_obj rec h (Obj (Arr xs) ps) =
     (case clone_items rec h xs of
        Inl err \<Rightarrow> Inl err
      | Inr (h1, ys) \<Rightarrow> Inr (h1 @ [Obj (Arr ys) []], length h1))"
  by (simp add: clone_obj_def alloc_def method_inherited split: sum.splits prod.splits)

lemma clone_obj_date:
  "clonable (Obj (Date t) ps) \<Longrightarrow>
   clone_obj rec h (Obj (Date t) ps) = Inr (h @ [Obj (Date t) []], length h)"
  by (simp add: clone_obj_def alloc_def method_inherited)


lemma no_proto_key:
  "clonable (Obj Plain ps) \<Longrightarrow> ''__proto__'' \<notin> fst ` set ps"
  by (simp add: map_of_eq_None_iff)

lemma deepClone_ref:
  "lookup_obj h a = Some ob \<Longrightarrow>
   deepClone n h (VRef a) =
     (case clone_obj (callee n) h ob of
        Inl err \<Rightarrow> Inl err
      | Inr (h1, a1) \<Rightarrow> Inr (h1, VRef a1))"
  by (simp add: deepClone_unfold deepClone_body_def del: deepClone.simps)

lemma deepClone_function:
  "k \<noteq> ''__proto__'' \<Longrightarrow> deepClone n h (VNative p k) = Inr (h, VNative p k)"
  by (simp add: deepClone_unfold deepClone_body_def del: deepClone.simps)

lemma fits_ref:
  "fits n h (VRef a) \<Longrightarrow> \<exists>ob. lookup_obj h a = Some ob \<and> clonable ob"
  by (cases n) (auto split: option.splits obj.splits okind.splits)

lemma fits_append: "fits n h v \<Longrightarrow> fits n (h @ zs) v"
proof (induction n arbitrary: v)
  case 0
  then show ?case
    by (auto simp: lookup_obj_append split: jsval.splits option.splits obj.splits okind.splits)
next
  case (Suc n)
  then show ?case
    by (auto simp: lookup_obj_append list_all_iff
        split: jsval.splits option.splits obj.splits okind.splits)
qed

lemma clone_items_total:
  assumes "\<And>h x. x \<in> set xs \<Longrightarrow> P h x \<Longrightarrow> \<exists>h' y zs. rec h x = Inr (h', y) \<and> h' = h @ zs"
    and "\<And>h x zs. x \<in> set xs \<Longrightarrow> P h x \<Longrightarrow> P (h @ zs) x"
  shows "\<forall>x \<in> set xs. P h x \<Longrightarrow> \<exists>h' ys. clone_items rec h xs = Inr (h', ys)"
  using assms
proof (induction xs arbitrary: h)
  case Nil
  then show ?case by simp
next
  case (Cons x xs)
  from Cons.prems(1) have px: "P h x" by simp
  from Cons.prems(2)[of x h] px obtain h1 y zs where
    r: "rec h x = Inr (h1, y)" and h1: "h1 = h @ zs"
    by auto
  have "\<forall>x\<in>set xs. P h1 x"
    using Cons.prems(1,3) h1 by auto
  from Cons.IH[OF this] Cons.prems(2,3) obtain h2 ys where
    "clone_items rec h1 xs = Inr (h2, ys)"
    by auto
  then show ?case using r by simp
qed

lemma clone_props_total:
  assumes "\<And>h x. x \<in> snd ` set ps \<Longrightarrow> P h x \<Longrightarrow>
             \<exists>h' y zs. rec h x = Inr (h', y) \<and> h' = h @ zs"
    and "\<And>h x zs. x \<in> snd ` set ps \<Longrightarrow> P h x \<Longrightarrow> P (h @ zs) x"
  shows "''__proto__'' \<notin> fst ` set ps \<Longrightarrow> \<forall>x \<in> snd ` set ps. P h x \<Longrightarrow>
         \<exists>h' qs. clone_props rec h ps = Inr (h', qs)"
  using assms
proof (induction ps arbitrary: h)
  case Nil
  then show ?case by simp
next
  case (Cons p ps)
  obtain k x where p: "p = (k, x)" by (cases p)
  from Cons.prems(1) p have k: "k \<noteq> ''__proto__''" and np: "''__proto__'' \<notin> fst ` set ps"
    by auto
  from Cons.prems(2) p have px: "P h x" by simp
  from Cons.prems(3)[of x h] px p obtain h1 y zs where
    r: "rec h x = Inr (h1, y)" and h1: "h1 = h @ zs"
    by auto
  have "\<forall>x\<in>snd ` set ps. P h1 x"
    using Cons.prems(2,4) h1 by auto
  from Cons.IH[OF np this] Cons.prems(3,4) obtain h2 qs where
    "clone_props rec h1 ps = Inr (h2, qs)"
    by auto
  then show ?case using r p k by simp
qed

lemma deepClone_total: "fits n h v \<Longrightarrow> \<exists>h' v'. deepClone n h v = Inr (h', v')"
proof (induction n arbitrary: h v)
  case 0
  show ?case
  proof (cases v)
    case (VRef a)
    from fits_ref[of 0 h a] "0.prems" VRef obtain ob where
      lk: "lookup_obj h a = Some ob" and cl: "clonable ob" by auto
    obtain kind ps where ob: "ob = Obj kind ps" by (cases ob)
    show ?thesis
      using "0.prems" VRef lk ob cl
      by (cases kind)
         (auto simp: deepClone_body_def clone_obj_plain clone_obj_array clone_obj_date)
  qed (use "0.prems" in \<open>simp_all add: deepClone_body_def\<close>)
next
  case (Suc n)
  have rec: "fits n h x \<Longrightarrow> \<exists>h' y zs. deepClone n h x = Inr (h', y) \<and> h' = h @ zs" for h x
    using Suc.IH[of h x] deepClone_grows[of n h x] by fastforce
  show ?case
  proof (cases v)
    case (VRef a)
    from fits_ref[of "Suc n" h a] Suc.prems VRef obtain ob where
      lk: "lookup_obj h a = Some ob" and cl: "clonable ob" by auto
    obtain kind ps where ob: "ob = Obj kind ps" by (cases ob)
    show ?thesis
    proof (cases kind)
      case Plain
      with Suc.prems VRef lk ob have "\<forall>x \<in> snd ` set ps. fits n h x"
        by (auto simp: list_all_iff)
      from clone_props_total[of ps "fits n" "deepClone n", OF rec fits_append
          no_proto_key this] cl ob Plain
      obtain h' qs where "clone_props (deepClone n) h ps = Inr (h', qs)" by blast
      then show ?thesis using VRef lk ob Plain cl
        by (simp add: deepClone_body_def clone_obj_plain del: clonable.simps)
    next
      case (Arr xs)
      with Suc.prems VRef lk ob have "\<forall>x \<in> set xs. fits n h x"
        by (auto simp: list_all_iff)
      from clone_items_total[of xs "fits n" "deepClone n", OF rec fits_append this]
      obtain h' ys where "clone_items (deepClone n) h xs = Inr (h', ys)" by blast
      then show ?thesis using VRef lk ob Arr cl
        by (simp add: deepClone_body_def clone_obj_array del: clonable.simps)
    next
      case (Date t)
      then show ?thesis using VRef lk ob cl
        by (simp add: deepClone_body_def clone_obj_date del: clonable.simps)
    qed
  qed (use Suc.prems in \<open>simp_all add: deepClone_body_def\<close>)
qed

subsection \<open>The clone has the contents of the original\<close>









subsection \<open>The clone shares no object with the original\<close>



lemma apart_primitive: "primitive v \<Longrightarrow> apart d k h v"
  by (cases d; cases v) simp_all








section \<open>A call of set that passes commits\<close>

lemma fits_primitive: "primitive v \<Longrightarrow> fits n h v"
  by (cases n; cases v) simp_all

lemma set_val_commit:
  assumes "passes e m key value"
  shows "\<exists>h1 h2 h3 oc nc.
           set_member (store m) (state m) key value = Inr h1
         \<and> deepClone (stack e) h1 (get m key) = Inr (h2, oc)
         \<and> deepClone (stack e) h2 value = Inr (h3, nc)
         \<and> set_val e now m key value =
             (Normal,
              m\<lparr>store := h3,
                history := push_history (history m)
                  \<lparr>h_key = key, h_oldValue = oc, h_newValue = nc, h_timestamp = now\<rparr>,
                trace := trace m @ forEach_listener e key value (get m key) (registered m key)\<rparr>)"
proof -
  from assms have de: "deepEqual (stack e) (store m) (get m key) value = Some False"
    and nr: "\<not> rejected m key value" and st: "storable e m key value"
    by (simp_all add: passes_def)
  from st obtain h1 where h1: "set_member (store m) (state m) key value = Inr h1"
    and f1: "fits (stack e) h1 (get m key)" and f2: "fits (stack e) h1 value"
    by (auto simp: storable_def split: sum.splits)
  from deepClone_total[OF f1] obtain h2 oc where
    h2: "deepClone (stack e) h1 (get m key) = Inr (h2, oc)" by blast
  from deepClone_grows[OF h2] f2 have "fits (stack e) h2 value"
    by (auto simp: fits_append)
  from deepClone_total[OF this] obtain h3 nc where
    h3: "deepClone (stack e) h2 value = Inr (h3, nc)" by blast
  show ?thesis
    using de nr h1 h2 h3 by (simp add: set_val_def notifyListeners_eq)
qed

lemma storable_primitive:
  assumes "plain_root m" and "key \<noteq> ''__proto__''"
    and "primitive (get m key)" and "primitive value"
  shows "storable e m key value"
proof -
  from plain_rootD[OF assms(1)] obtain a ps where st: "state m = VRef a"
    and lk: "lookup_obj (store m) a = Some (Obj Plain ps)"
    by blast
  show ?thesis
    using set_member_plain[OF lk assms(2), of "value"] st assms(3,4)
    by (simp add: storable_def fits_primitive)
qed

lemma passes_primitive:
  assumes "plain_root m" and "key \<noteq> ''__proto__''"
    and "primitive (get m key)" and "primitive value"
    and "\<not> strict_eq (get m key) value" and "\<not> rejected m key value"
  shows "passes e m key value"
  using assms storable_primitive[OF assms(1-4), of e]
  by (simp add: passes_def deepEqual_non_array array_items_primitive)

lemma set_val_primitive:
  assumes "plain_root m" and "key \<noteq> ''__proto__''"
    and "primitive (get m key)" and "primitive value"
    and "\<not> strict_eq (get m key) value" and "\<not> rejected m key value"
    and "state m = VRef a" and "lookup_obj (store m) a = Some (Obj Plain ps)"
  shows "set_val e now m key value =
           (Normal,
            m\<lparr>store := (store m)[a := Obj Plain (AList.update key value ps)],
              history := push_history (history m)
                \<lparr>h_key = key, h_oldValue = get m key, h_newValue = value, h_timestamp = now\<rparr>,
              trace := trace m @ forEach_listener e key value (get m key) (registered m key)\<rparr>)"
proof -
  have de: "deepEqual (stack e) (store m) (get m key) value = Some False"
    using assms(3,5) by (simp add: deepEqual_non_array array_items_primitive)
  have sm: "set_member (store m) (state m) key value =
      Inr ((store m)[a := Obj Plain (AList.update key value ps)])"
    using set_member_plain[OF assms(8,2), of "value"] assms(7) by simp
  show ?thesis
    by (simp add: set_val_def Let_def de sm assms(3,4,6) deepClone_primitive notifyListeners_eq
        del: set_member.simps)
qed

subsection \<open>Writes keep the kind of every object\<close>

lemma obj_set_kind:
  "obj_set ob k v = Inr ob' \<Longrightarrow> (\<exists>ps. ob = Obj Plain ps) = (\<exists>ps. ob' = Obj Plain ps)"
  by (cases "(ob, k, v)" rule: obj_set.cases)
     (auto simp: put_def split: option.splits if_splits sum.splits)

lemma set_member_is_plain:
  assumes "set_member h u k v = Inr h'" and "is_plain h (VRef a)"
  shows "is_plain h' (VRef a)"
proof (cases "\<exists>b. u = VRef b")
  case False
  with assms(1) have "h' = h"
    by (cases u) (auto split: if_splits)
  with assms(2) show ?thesis by simp
next
  case True
  with assms(1) obtain b ob ob' where u: "u = VRef b" and lk: "lookup_obj h b = Some ob"
    and os: "obj_set ob k v = Inr ob'" and h': "h' = h[b := ob']"
    by (auto split: option.splits sum.splits)
  from lk have b: "b < length h" and ob: "ob = h ! b"
    by (auto simp: lookup_obj_def split: if_splits)
  show ?thesis
  proof (cases "a = b")
    case True
    with assms(2) lk obtain ps where "ob = Obj Plain ps"
      by (auto split: option.splits obj.splits okind.splits)
    with obj_set_kind[OF os] obtain ps' where "ob' = Obj Plain ps'" by auto
    then show ?thesis using True b h' by (simp add: lookup_obj_def)
  next
    case False
    then show ?thesis using assms(2) h'
      by (auto simp: lookup_obj_def split: if_splits)
  qed
qed

lemma is_plain_append: "is_plain h (VRef a) \<Longrightarrow> is_plain (h @ zs) (VRef a)"
  by (auto simp: lookup_obj_def nth_append split: if_splits)

lemma set_val_state [simp]: "state (snd (set_val e now m key value)) = state m"
  by (simp add: set_val_def Let_def notifyListeners_eq
      split: option.splits bool.splits sum.splits prod.splits)

lemma set_val_is_plain:
  assumes "is_plain (store m) (VRef a)"
  shows "is_plain (store (snd (set_val e now m key value))) (VRef a)"
proof -
  have g: "is_plain h3 (VRef a)"
    if "set_member (store m) (state m) key value = Inr h1" "h3 = h1 @ zs" for h1 h3 zs
    using set_member_is_plain[OF that(1) assms] that(2)
    by (simp add: is_plain_append del: is_plain.simps)
  have g0: "is_plain h1 (VRef a)"
    if "set_member (store m) (state m) key value = Inr h1" for h1
    using g[OF that, of h1 "[]"] by simp
  show ?thesis
  proof (cases "set_member (store m) (state m) key value")
    case (Inl err)
    then show ?thesis using assms
      by (simp add: set_val_def Let_def split: option.splits bool.splits)
  next
    case sm: (Inr h1)
    show ?thesis
    proof (cases "deepClone (stack e) h1 (get m key)")
      case (Inl err)
      then show ?thesis using assms sm g0[OF sm]
        by (simp add: set_val_def Let_def split: option.splits bool.splits)
    next
      case c1: (Inr r1)
      obtain h2 oc where r1: "r1 = (h2, oc)" by (cases r1)
      from deepClone_grows[of "stack e" h1 "get m key" h2 oc] c1 r1
      obtain z1 where h2: "h2 = h1 @ z1" by auto
      show ?thesis
      proof (cases "deepClone (stack e) h2 value")
        case (Inl err)
        then show ?thesis using assms sm c1 r1 g[OF sm h2]
          by (simp add: set_val_def Let_def split: option.splits bool.splits)
      next
        case c2: (Inr r2)
        obtain h3 nc where r2: "r2 = (h3, nc)" by (cases r2)
        from deepClone_grows[of "stack e" h2 "value" h3 nc] c2 r2
        obtain z2 where h3: "h3 = h2 @ z2" by auto
        have "is_plain h3 (VRef a)"
          using g[OF sm, of h3 "z1 @ z2"] h2 h3 by simp
        then show ?thesis using assms sm c2 r2 c1 r1
          by (simp add: set_val_def Let_def notifyListeners_eq split: option.splits bool.splits)
      qed
    qed
  qed
qed

lemma plain_root_set_val: "plain_root m \<Longrightarrow> plain_root (snd (set_val e now m key value))"
proof -
  assume pr: "plain_root m"
  from plain_rootD[OF pr] obtain a ps where st: "state m = VRef a"
    and lk: "lookup_obj (store m) a = Some (Obj Plain ps)" by blast
  have "is_plain (store m) (VRef a)" using lk by simp
  from set_val_is_plain[OF this, of e now key "value"] st show ?thesis
    by (simp add: plain_root_def)
qed

lemma set_val_validators [simp]:
  "validators (snd (set_val e now m key value)) = validators m"
  by (simp add: set_val_def Let_def split: option.splits bool.splits sum.splits prod.splits)

lemma rejected_set_val [simp]:
  "rejected (snd (set_val e now m key value)) k v = rejected m k v"
  by (simp add: rejected_def)

subsection \<open>A missing property is created\<close>

lemma vivify_missing:
  assumes "lookup_obj h a = Some (Obj Plain ps)" and "\<not> truthy (own_or_inherited Plain ps key)"
  shows "vivify h (VRef a) key =
     ((h @ [Obj Plain []])[a := Obj Plain (AList.update key (VRef (length h)) ps)],
      Inr (VRef (length h)))"
proof -
  from assms(1) have a: "a < length h" by (simp add: lookup_obj_def split: if_splits)
  have lk: "lookup_obj (h @ [Obj Plain []]) a = Some (Obj Plain ps)"
    using assms(1) by (rule lookup_obj_append)
  have "key = ''__proto__'' \<longrightarrow> map_of ps key \<noteq> None"
    using assms(2) by (auto simp: own_or_inherited_def split: option.splits)
  then have pt: "put ps key (VRef (length h)) = Inr (AList.update key (VRef (length h)) ps)"
    by (auto simp: put_def)
  show ?thesis
    using assms a lk pt
    by (simp add: vivify_def alloc_def lookup_obj_def own_update)
qed

section \<open>The validation gate\<close>

lemma constructor_validators_primitive:
  assumes "setupValidators Map.empty key = Some validator" and "validator value key"
  shows "primitive value \<and> key \<noteq> ''__proto__''"
proof -
  from assms(1) have
    "(key = ''activeTab'' \<and> validator = activeTab_validator)
     \<or> (key = ''currentRecordType'' \<and> validator = currentRecordType_validator)
     \<or> (key = ''selectHomeOfficeMethod'' \<and> validator = homeOfficeMethod_validator)
     \<or> (key = ''currentRecord'' \<and> validator = currentRecord_validator)"
    by (auto simp: setupValidators_def split: if_splits)
  with assms(2) show ?thesis
    by (cases "value")
       (auto simp: activeTab_validator_def currentRecordType_validator_def
          homeOfficeMethod_validator_def currentRecord_validator_def array_includes_def
          split: if_splits)
qed

text \<open>
  Claim C1, as amended. For a key with a registered validator and a value that
  \<open>deepEqual\<close> tells apart from the stored one: when the validator rejects the value, \<open>set\<close>
  returns normally and leaves the manager as it was, but for the warning on the console
  (the store, the state, the history and the registry are unchanged and no listener is
  called). When the validator accepts the value, the value is assigned, so that \<open>get\<close>
  returns it afterwards. When, moreover, the value is storable (the old and the new
  value can be cloned for the history), the write commits: \<open>set\<close> returns normally, the
  history has one more entry, with the key, the clones of the old and of the new value
  and the time, every listener of the key is called once with the new value, the old
  value and the key, and nothing else changes but the store. With the validators that
  the constructor registers every accepted value is storable when the stored value is a
  primitive (as every value is that \<open>set\<close> has stored under such a key): they accept
  primitives only.
\<close>

theorem validation_gate:
  assumes "validators m key = Some validator"
    and "deepEqual (stack e) (store m) (get m key) value = Some False"
  shows "(\<not> validator value key \<longrightarrow>
            set_val e now m key value = (Normal, m\<lparr>trace := trace m @ [Warned key value]\<rparr>))
       \<and> (validator value key \<and> plain_root m \<and> key \<noteq> ''__proto__'' \<longrightarrow>
            get (snd (set_val e now m key value)) key = value)
       \<and> (validator value key \<and> storable e m key value \<longrightarrow>
            (\<exists>h1 h2 h3 oc nc.
               set_member (store m) (state m) key value = Inr h1
             \<and> deepClone (stack e) h1 (get m key) = Inr (h2, oc)
             \<and> deepClone (stack e) h2 value = Inr (h3, nc)
             \<and> set_val e now m key value =
                 (Normal,
                  m\<lparr>store := h3,
                    history := push_history (history m)
                      \<lparr>h_key = key, h_oldValue = oc, h_newValue = nc, h_timestamp = now\<rparr>,
                    trace := trace m @
                      forEach_listener e key value (get m key) (registered m key)\<rparr>))
             \<and> fst (set_val e now m key value) = Normal
             \<and> calls_of (trace (snd (set_val e now m key value))) =
                 calls_of (trace m) @ map (\<lambda>l. (l, value, get m key, key)) (registered m key))
       \<and> (validator value key \<and> validators m = setupValidators Map.empty \<and> plain_root m
            \<and> primitive (get m key) \<longrightarrow>
            storable e m key value \<and> key \<noteq> ''__proto__'')"
proof -
  have nr: "validator value key \<Longrightarrow> \<not> rejected m key value"
    using assms(1) by (simp add: rejected_def)
  have a: "\<not> validator value key \<longrightarrow>
            set_val e now m key value = (Normal, m\<lparr>trace := trace m @ [Warned key value]\<rparr>)"
    using assms set_val_rejected[of e m key "value" now] by (simp add: rejected_def)
  have b: "\<exists>h1 h2 h3 oc nc.
               set_member (store m) (state m) key value = Inr h1
             \<and> deepClone (stack e) h1 (get m key) = Inr (h2, oc)
             \<and> deepClone (stack e) h2 value = Inr (h3, nc)
             \<and> set_val e now m key value =
                 (Normal,
                  m\<lparr>store := h3,
                    history := push_history (history m)
                      \<lparr>h_key = key, h_oldValue = oc, h_newValue = nc, h_timestamp = now\<rparr>,
                    trace := trace m @
                      forEach_listener e key value (get m key) (registered m key)\<rparr>)"
    if "validator value key" "storable e m key value"
    using set_val_commit[of e m key "value" now] assms(2) nr[OF that(1)] that(2)
    by (simp add: passes_def)
  have c: "fst (set_val e now m key value) = Normal
        \<and> calls_of (trace (snd (set_val e now m key value))) =
            calls_of (trace m) @ map (\<lambda>l. (l, value, get m key, key)) (registered m key)"
    if "validator value key" "storable e m key value"
    using b[OF that] by (auto simp: calls_of_append calls_of_forEach)
  have d: "get (snd (set_val e now m key value)) key = value"
    if "validator value key" "plain_root m" "key \<noteq> ''__proto__''"
    using assms(2) nr[OF that(1)] that(2,3) by (rule set_val_get_committed)
  have f: "storable e m key value \<and> key \<noteq> ''__proto__''"
    if "validator value key" "validators m = setupValidators Map.empty" "plain_root m"
      "primitive (get m key)"
  proof -
    from constructor_validators_primitive[of key validator "value"] assms(1) that(1,2)
    have "primitive value" "key \<noteq> ''__proto__''" by simp_all
    then show ?thesis using storable_primitive[OF that(3) _ that(4), of "value" e] by simp
  qed
  show ?thesis using a b c d f by blast
qed

theorem validation_gate_witness:
  "validators (listening ''activeTab'') ''activeTab'' = Some activeTab_validator
   \<and> deepEqual (stack quiet) (store (listening ''activeTab''))
        (get (listening ''activeTab'') ''activeTab'') (VStr ''not-a-tab'') = Some False
   \<and> \<not> activeTab_validator (VStr ''not-a-tab'') ''activeTab''
   \<and> set_val quiet 7 (listening ''activeTab'') ''activeTab'' (VStr ''not-a-tab'') =
       (Normal, (listening ''activeTab'')\<lparr>trace := [Warned ''activeTab'' (VStr ''not-a-tab'')]\<rparr>)
   \<and> deepEqual (stack quiet) (store (listening ''activeTab''))
        (get (listening ''activeTab'') ''activeTab'') (VStr ''income'') = Some False
   \<and> activeTab_validator (VStr ''income'') ''activeTab''
   \<and> storable quiet (listening ''activeTab'') ''activeTab'' (VStr ''income'')
   \<and> plain_root (listening ''activeTab'')
   \<and> fst (set_val quiet 7 (listening ''activeTab'') ''activeTab'' (VStr ''income'')) = Normal
   \<and> history (snd (set_val quiet 7 (listening ''activeTab'') ''activeTab'' (VStr ''income''))) =
       [\<lparr>h_key = ''activeTab'', h_oldValue = VStr ''overview'', h_newValue = VStr ''income'',
         h_timestamp = 7\<rparr>]
   \<and> calls_of (trace (snd (set_val quiet 7 (listening ''activeTab'') ''activeTab''
        (VStr ''income'')))) = [(2, VStr ''income'', VStr ''overview'', ''activeTab'')]
   \<and> get (snd (set_val quiet 7 (listening ''activeTab'') ''activeTab'' (VStr ''income'')))
        ''activeTab'' = VStr ''income''"
proof -
  let ?m = "listening ''activeTab''"
  have v: "validators ?m ''activeTab'' = Some activeTab_validator"
    by (simp add: listening_def setupValidators_def)
  have old: "get ?m ''activeTab'' = VStr ''overview''"
    by (simp add: listening_def get_fresh fresh_root_def own_or_inherited_def)
  have de1: "deepEqual (stack quiet) (store ?m) (get ?m ''activeTab'') (VStr ''not-a-tab'') =
      Some False"
    and de2: "deepEqual (stack quiet) (store ?m) (get ?m ''activeTab'') (VStr ''income'') =
      Some False"
    by (simp_all add: old deepEqual_non_array array_items_def strict_eq_def)
  have rj: "\<not> activeTab_validator (VStr ''not-a-tab'') ''activeTab''"
    and ac: "activeTab_validator (VStr ''income'') ''activeTab''"
    by (simp_all add: activeTab_validator_def array_includes_def validTabs_def)
  have pr: "plain_root ?m"
    by (simp add: listening_def plain_root_def root_fresh)
  have sb: "storable quiet ?m ''activeTab'' (VStr ''income'')"
    using pr by (rule storable_primitive) (simp_all add: old)
  have reg: "registered ?m ''activeTab'' = [2]"
    by (simp add: listening_def registered_subscribe registered_fresh set_add_def)
  have tr: "trace ?m = []" and hs: "history ?m = []"
    by (simp_all add: listening_def)
  have sv: "set_val quiet 7 ?m ''activeTab'' (VStr ''income'') =
      (Normal,
       ?m\<lparr>store := (store ?m)[21 := Obj Plain
              (AList.update ''activeTab'' (VStr ''income'') fresh_root)],
          history := push_history (history ?m)
            \<lparr>h_key = ''activeTab'', h_oldValue = get ?m ''activeTab'',
             h_newValue = VStr ''income'', h_timestamp = 7\<rparr>,
          trace := trace ?m @ forEach_listener quiet ''activeTab'' (VStr ''income'')
            (get ?m ''activeTab'') (registered ?m ''activeTab'')\<rparr>)"
    using pr
  proof (rule set_val_primitive)
    show "\<not> rejected ?m ''activeTab'' (VStr ''income'')"
      using v ac by (simp add: rejected_def)
    show "state ?m = VRef 21" by (simp add: listening_def)
    show "lookup_obj (store ?m) 21 = Some (Obj Plain fresh_root)"
      by (simp add: listening_def root_fresh)
  qed (simp_all add: old strict_eq_def)
  have h: "history (snd (set_val quiet 7 ?m ''activeTab'' (VStr ''income''))) =
       [\<lparr>h_key = ''activeTab'', h_oldValue = VStr ''overview'', h_newValue = VStr ''income'',
         h_timestamp = 7\<rparr>]"
    by (simp add: sv hs old push_history_def)
  from validation_gate[OF v de1, of 7] rj
  have r1: "set_val quiet 7 ?m ''activeTab'' (VStr ''not-a-tab'') =
       (Normal, ?m\<lparr>trace := [Warned ''activeTab'' (VStr ''not-a-tab'')]\<rparr>)"
    by (simp add: tr)
  from validation_gate[OF v de2, of 7] ac sb pr
  have r2: "fst (set_val quiet 7 ?m ''activeTab'' (VStr ''income'')) = Normal"
    and r3: "calls_of (trace (snd (set_val quiet 7 ?m ''activeTab'' (VStr ''income'')))) =
       [(2, VStr ''income'', VStr ''overview'', ''activeTab'')]"
    and r4: "get (snd (set_val quiet 7 ?m ''activeTab'' (VStr ''income''))) ''activeTab'' =
       VStr ''income''"
    by (simp_all add: tr reg old)
  show ?thesis
    by (intro conjI v de1 rj r1 de2 ac sb pr r2 h r3 r4)
qed

lemma validators_listening [simp]: "validators (listening k) = setupValidators Map.empty"
  by (simp add: listening_def subscribe_def Let_def)

lemma shadowed_record_value:
  "setNested quiet (listening ''currentRecord'') ''currentRecord.hasOwnProperty'' (VStr ''x'') =
     (Normal,
      (listening ''currentRecord'')
        \<lparr>store := ((store fresh @ [Obj Plain []])
             [21 := Obj Plain (AList.update ''currentRecord'' (VRef 22) fresh_root)])
             [22 := Obj Plain [(''hasOwnProperty'', VStr ''x'')]]\<rparr>)"
proof -
  let ?m = "listening ''currentRecord''"
  let ?h1 = "(store fresh @ [Obj Plain []])
      [21 := Obj Plain (AList.update ''currentRecord'' (VRef 22) fresh_root)]"
  have len: "length (store fresh) = 22"
    by (simp add: fresh_def fresh_store_def module_store_def)
  have st: "store ?m = store fresh" "state ?m = VRef 21" "trace ?m = []"
    by (simp_all add: listening_def)
  have nt: "\<not> truthy (own_or_inherited Plain fresh_root ''currentRecord'')"
    by (simp add: own_or_inherited_def fresh_root_def)
  have v: "vivify (store fresh) (VRef 21) ''currentRecord'' = (?h1, Inr (VRef 22))"
    using vivify_missing[OF root_fresh nt] by (simp add: len)
  have l22: "lookup_obj ?h1 22 = Some (Obj Plain [])"
    by (simp add: lookup_obj_def len nth_append)
  have sm: "set_member ?h1 (VRef 22) ''hasOwnProperty'' (VStr ''x'') =
      Inr (?h1[22 := Obj Plain [(''hasOwnProperty'', VStr ''x'')]])"
    by (simp add: l22 put_def)
  have r: "registered ?m ''currentRecord.hasOwnProperty'' = []"
    by (simp add: listening_def registered_def subscribe_other)
  have tr: "?m\<lparr>store := h, trace := []\<rparr> = ?m\<lparr>store := h\<rparr>" for h
    by (simp add: listening_def)
  show ?thesis
    unfolding setNested_def
    by (simp add: st v sm notifyListeners_eq r tr del: set_member.simps get_member.simps)
qed

text \<open>
  The claim as stated fails where the stored value cannot be cloned, and
  \<open>setNested\<close>, which consults no validator, can store such a value under a validated
  key: after \<^verbatim>\<open>setNested('currentRecord.hasOwnProperty', 'x')\<close> the record is an object
  that shadows \<^verbatim>\<open>hasOwnProperty\<close>. Then \<^verbatim>\<open>set('currentRecord', 5)\<close> is accepted by the
  validator and assigned, but the clone of the old value for the history throws a
  \<^verbatim>\<open>TypeError\<close>: \<open>set\<close> does not return normally, the history gets no entry and the
  listener of the key is not called.
\<close>

theorem accepted_write_throws_counterexample:
  "stateManager quiet = Inr fresh
   \<and> setNested quiet (listening ''currentRecord'') ''currentRecord.hasOwnProperty'' (VStr ''x'') =
       (Normal, shadowed_record)
   \<and> validators shadowed_record ''currentRecord'' = Some currentRecord_validator
   \<and> currentRecord_validator (VNum 5) ''currentRecord''
   \<and> registered shadowed_record ''currentRecord'' = [2]
   \<and> history shadowed_record = []
   \<and> trace shadowed_record = []
   \<and> (\<forall>e now.
         deepEqual (stack e) (store shadowed_record) (get shadowed_record ''currentRecord'')
           (VNum 5) = Some False
       \<and> fst (set_val e now shadowed_record ''currentRecord'' (VNum 5)) = Throw TypeError
       \<and> get (snd (set_val e now shadowed_record ''currentRecord'' (VNum 5))) ''currentRecord'' =
           VNum 5
       \<and> history (snd (set_val e now shadowed_record ''currentRecord'' (VNum 5))) = []
       \<and> trace (snd (set_val e now shadowed_record ''currentRecord'' (VNum 5))) = [])"
proof -
  let ?m = "listening ''currentRecord''"
  let ?h1 = "(store fresh @ [Obj Plain []])
      [21 := Obj Plain (AList.update ''currentRecord'' (VRef 22) fresh_root)]"
  let ?h2 = "?h1[22 := Obj Plain [(''hasOwnProperty'', VStr ''x'')]]"
  let ?root = "AList.update ''currentRecord'' (VRef 22) fresh_root"
  have sr: "shadowed_record = ?m\<lparr>store := ?h2\<rparr>"
    by (simp add: shadowed_record_def shadowed_record_value)
  have a: "setNested quiet ?m ''currentRecord.hasOwnProperty'' (VStr ''x'') =
       (Normal, shadowed_record)"
    by (simp add: sr shadowed_record_value)
  have len: "length (store fresh) = 22"
    by (simp add: fresh_def fresh_store_def module_store_def)
  have v: "validators shadowed_record ''currentRecord'' = Some currentRecord_validator"
    by (simp add: sr setupValidators_def)
  have ac: "currentRecord_validator (VNum 5) ''currentRecord''"
    by (simp add: currentRecord_validator_def)
  have rg: "registered shadowed_record ''currentRecord'' = [2]"
    by (simp add: sr registered_def listening_def subscribe_def Let_def set_add_def)
  have hs: "history shadowed_record = []" and tr: "trace shadowed_record = []"
    by (simp_all add: sr listening_def)
  have st: "state shadowed_record = VRef 21" "store shadowed_record = ?h2"
    by (simp_all add: sr listening_def)
  have l21: "lookup_obj ?h2 21 = Some (Obj Plain ?root)"
    by (simp add: lookup_obj_def len)
  have old: "get shadowed_record ''currentRecord'' = VRef 22"
    by (simp add: get_def st l21 own_update)
  have l22: "lookup_obj ?h2 22 = Some (Obj Plain [(''hasOwnProperty'', VStr ''x'')])"
    by (simp add: lookup_obj_def len)
  have de: "deepEqual n ?h2 (VRef 22) (VNum 5) = Some False" for n
    by (simp add: deepEqual_unfold deepEqual_body_def strict_eq_def array_items_def l22
        del: deepEqual.simps)
  have nr: "\<not> rejected shadowed_record ''currentRecord'' (VNum 5)"
    using v ac by (simp add: rejected_def)
  have np: "''currentRecord'' \<noteq> ''__proto__''" by simp
  let ?h3 = "?h2[21 := Obj Plain (AList.update ''currentRecord'' (VNum 5) fresh_root)]"
  have sm: "set_member ?h2 (VRef 21) ''currentRecord'' (VNum 5) = Inr ?h3"
    using set_member_plain[OF l21 np, of "VNum 5"] by simp
  have l22': "lookup_obj ?h3 22 = Some (Obj Plain [(''hasOwnProperty'', VStr ''x'')])"
    by (simp add: lookup_obj_def len)
  have cl: "deepClone n ?h3 (VRef 22) = Inl TypeError" for n
    by (subst deepClone_ref[OF l22'])
       (simp add: clone_obj_def call_method_def own_or_inherited_def)
  have sv: "set_val e now shadowed_record ''currentRecord'' (VNum 5) =
      (Throw TypeError, shadowed_record\<lparr>store := ?h3\<rparr>)" for e now
    by (simp add: set_val_def Let_def old st de nr sm cl del: set_member.simps deepClone.simps)
  have l21': "lookup_obj ?h3 21 =
      Some (Obj Plain (AList.update ''currentRecord'' (VNum 5) fresh_root))"
    by (simp add: lookup_obj_def len)
  have g: "get (shadowed_record\<lparr>store := ?h3\<rparr>) ''currentRecord'' = VNum 5"
    by (simp add: get_def st l21' own_update)
  have all: "\<forall>e now.
         deepEqual (stack e) (store shadowed_record) (get shadowed_record ''currentRecord'')
           (VNum 5) = Some False
       \<and> fst (set_val e now shadowed_record ''currentRecord'' (VNum 5)) = Throw TypeError
       \<and> get (snd (set_val e now shadowed_record ''currentRecord'' (VNum 5))) ''currentRecord'' =
           VNum 5
       \<and> history (snd (set_val e now shadowed_record ''currentRecord'' (VNum 5))) = []
       \<and> trace (snd (set_val e now shadowed_record ''currentRecord'' (VNum 5))) = []"
    by (simp add: sv g hs tr old st(2) de del: deepEqual.simps)
  show ?thesis
    by (intro conjI stateManager_quiet a v ac rg hs tr all)
qed

section \<open>The validator of the home-office method\<close>

text \<open>
  Claim C2. \<open>setupValidators\<close> registers the validator of the home-office method under
  the key \<^verbatim>\<open>selectHomeOfficeMethod\<close>, while the state, the action layer and the type
  \<^verbatim>\<open>AppState\<close> name the key \<^verbatim>\<open>selectedHomeOfficeMethod\<close>. So no validator guards the key
  that is written: on the manager of the store module,
  \<^verbatim>\<open>set('selectedHomeOfficeMethod', 'bogus')\<close> commits, appends a history entry and
  notifies the listener of the key.
\<close>

theorem home_office_validator_misses_key:
  "stateManager quiet = Inr fresh
   \<and> validators fresh ''selectedHomeOfficeMethod'' = None
   \<and> validators fresh ''selectHomeOfficeMethod'' = Some homeOfficeMethod_validator
   \<and> \<not> homeOfficeMethod_validator (VStr ''bogus'') ''selectedHomeOfficeMethod''
   \<and> fst (set_val quiet 7 fresh ''selectedHomeOfficeMethod'' (VStr ''bogus'')) = Normal
   \<and> get (snd (set_val quiet 7 fresh ''selectedHomeOfficeMethod'' (VStr ''bogus'')))
        ''selectedHomeOfficeMethod'' = VStr ''bogus''
   \<and> history (snd (set_val quiet 7 fresh ''selectedHomeOfficeMethod'' (VStr ''bogus''))) =
        [\<lparr>h_key = ''selectedHomeOfficeMethod'', h_oldValue = VNull,
          h_newValue = VStr ''bogus'', h_timestamp = 7\<rparr>]
   \<and> trace (snd (set_val quiet 7 (fst (subscribe fresh ''selectedHomeOfficeMethod'' 2))
        ''selectedHomeOfficeMethod'' (VStr ''bogus''))) =
        [Called 2 (VStr ''bogus'') VNull ''selectedHomeOfficeMethod'']"
proof -
  have v: "validators fresh ''selectedHomeOfficeMethod'' = None"
    "validators fresh ''selectHomeOfficeMethod'' = Some homeOfficeMethod_validator"
    "\<not> homeOfficeMethod_validator (VStr ''bogus'') ''selectedHomeOfficeMethod''"
    by (simp_all add: setupValidators_def homeOfficeMethod_validator_def array_includes_def)
  have old: "get fresh ''selectedHomeOfficeMethod'' = VNull"
    by (simp add: get_fresh fresh_root_def own_or_inherited_def)
  have de: "deepEqual (stack quiet) (store fresh) (get fresh ''selectedHomeOfficeMethod'')
      (VStr ''bogus'') = Some False"
    by (simp add: old deepEqual_non_array array_items_def strict_eq_def)
  have nr: "\<not> rejected fresh ''selectedHomeOfficeMethod'' (VStr ''bogus'')"
    by (simp add: rejected_def setupValidators_def)
  have g: "get (snd (set_val quiet 7 fresh ''selectedHomeOfficeMethod'' (VStr ''bogus'')))
        ''selectedHomeOfficeMethod'' = VStr ''bogus''"
    using de nr plain_root_fresh by (rule set_val_get_committed) simp
  have s: "set_val quiet 7 fresh ''selectedHomeOfficeMethod'' (VStr ''bogus'') =
     (Normal, fresh\<lparr>store := (store fresh)[21 := Obj Plain
          (AList.update ''selectedHomeOfficeMethod'' (VStr ''bogus'') fresh_root)],
        history := [\<lparr>h_key = ''selectedHomeOfficeMethod'', h_oldValue = VNull,
          h_newValue = VStr ''bogus'', h_timestamp = 7\<rparr>]\<rparr>)"
    using set_val_primitive[OF plain_root_fresh _ _ _ _ nr _ root_fresh, of quiet 7]
    by (simp add: old strict_eq_def push_history_def registered_fresh)
  let ?m = "fst (subscribe fresh ''selectedHomeOfficeMethod'' 2)"
  have nr2: "\<not> rejected ?m ''selectedHomeOfficeMethod'' (VStr ''bogus'')"
    by (simp add: rejected_def setupValidators_def)
  have pr2: "plain_root ?m"
    by (simp add: plain_root_def root_fresh)
  have lk2: "lookup_obj (store ?m) 21 = Some (Obj Plain fresh_root)"
    by (simp add: root_fresh)
  have t: "trace (snd (set_val quiet 7 ?m ''selectedHomeOfficeMethod'' (VStr ''bogus''))) =
        [Called 2 (VStr ''bogus'') VNull ''selectedHomeOfficeMethod'']"
    using set_val_primitive[OF pr2 _ _ _ _ nr2 _ lk2, of quiet 7]
    by (simp add: old strict_eq_def registered_subscribe registered_fresh set_add_def
        invoke_def quiet_def)
  show ?thesis using v stateManager_quiet g s t by simp
qed

section \<open>Listener isolation\<close>

text \<open>
  Claim C7. A notification invokes every listener registered under the key, once and in
  registration order, with the new value, the old value and the key, whichever of them
  throw; each thrown value is logged with the key; and whether \<open>set\<close>, \<open>setNested\<close> or
  \<open>reset\<close> return normally does not depend on what the listeners do.
\<close>

theorem listener_isolation:
  "calls_of (trace (notifyListeners e m key nv ov)) =
     calls_of (trace m) @ map (\<lambda>l. (l, nv, ov, key)) (registered m key)
   \<and> errors_of (trace (notifyListeners e m key nv ov)) =
     errors_of (trace m) @
       concat (map (\<lambda>l. case call e l nv ov key of None \<Rightarrow> [] | Some err \<Rightarrow> [(key, err)])
                 (registered m key))
   \<and> fst (set_val (e\<lparr>call := c\<rparr>) now m key v) = fst (set_val e now m key v)
   \<and> fst (setNested (e\<lparr>call := c\<rparr>) m path v) = fst (setNested e m path v)
   \<and> fst (reset (e\<lparr>call := c\<rparr>) m) = fst (reset e m)"
  by (simp add: notifyListeners_trace calls_of_append errors_of_append calls_of_forEach
      errors_of_forEach set_val_completion_call setNested_completion_call reset_completion_call)

lemma registered_two_listeners: "registered two_listeners ''activeTab'' = [3, 4]"
  by (simp add: two_listeners_def registered_subscribe registered_fresh set_add_def)

theorem listener_isolation_witness:
  "call faulty 3 (VStr ''income'') (VStr ''overview'') ''activeTab'' = Some (VStr ''boom'')
   \<and> calls_of (trace (notifyListeners faulty two_listeners ''activeTab''
        (VStr ''income'') (VStr ''overview''))) =
       [(3, VStr ''income'', VStr ''overview'', ''activeTab''),
        (4, VStr ''income'', VStr ''overview'', ''activeTab'')]
   \<and> errors_of (trace (notifyListeners faulty two_listeners ''activeTab''
        (VStr ''income'') (VStr ''overview''))) = [(''activeTab'', VStr ''boom'')]"
proof -
  have c1: "call faulty 3 (VStr ''income'') (VStr ''overview'') ''activeTab'' = Some (VStr ''boom'')"
    and c2: "call faulty 4 (VStr ''income'') (VStr ''overview'') ''activeTab'' = None"
    by (simp_all add: faulty_def)
  have t: "trace two_listeners = []"
    by (simp add: two_listeners_def)
  show ?thesis
    using listener_isolation[of faulty two_listeners "''activeTab''" "VStr ''income''"
      "VStr ''overview''"]
    by (simp add: registered_two_listeners c1 c2 t)
qed

section \<open>Unsubscribing\<close>

subsection \<open>Who is called\<close>

lemma calls_to_append: "calls_to l k (xs @ ys) = calls_to l k xs + calls_to l k ys"
  by (simp add: calls_to_def calls_of_append)

lemma count_calls:
  "length (filter (\<lambda>c. fst c = l \<and> snd (snd (snd c)) = k) (map (\<lambda>x. (x, nv, ov, key)) ls)) =
     (if key = k then count_list ls l else 0)"
  by (induction ls) auto

lemma calls_to_forEach:
  "calls_to l k (forEach_listener e key nv ov ls) = (if key = k then count_list ls l else 0)"
  unfolding calls_to_def calls_of_forEach by (rule count_calls)

lemma calls_to_Warned [simp]: "calls_to l k [Warned key v] = 0"
  by (simp add: calls_to_def)

lemma calls_to_Nil [simp]: "calls_to l k [] = 0"
  by (simp add: calls_to_def)

lemma count_list_absent: "x \<notin> set xs \<Longrightarrow> count_list xs x = 0"
  by (induction xs) auto

lemma count_list_distinct: "distinct xs \<Longrightarrow> x \<in> set xs \<Longrightarrow> count_list xs x = 1"
  by (induction xs) (auto simp: count_list_absent)

lemma calls_to_notify:
  "calls_to l k (trace (notifyListeners e m key nv ov)) =
     calls_to l k (trace m) + (if key = k then count_list (registered m key) l else 0)"
  by (simp add: notifyListeners_trace calls_to_append calls_to_forEach)

lemma set_val_listeners [simp]: "listeners (snd (set_val e now m key value)) = listeners m"
  by (simp add: set_val_def Let_def split: option.splits bool.splits sum.splits prod.splits)

lemma setNested_listeners [simp]: "listeners (snd (setNested e m path value)) = listeners m"
  by (simp add: setNested_def Let_def split: sum.splits prod.splits)

lemma reset_loop_listeners [simp]:
  "listeners (snd (reset_loop e old m keys)) = listeners m"
  by (induction keys arbitrary: m) (simp_all split: sum.splits)

lemma reset_listeners [simp]: "listeners (snd (reset e m)) = listeners m"
  by (simp add: reset_def split: sum.splits prod.splits)

lemma registered_cong: "listeners m' = listeners m \<Longrightarrow> registered m' k = registered m k"
  by (simp add: registered_def)

lemma set_val_calls_to:
  "l \<notin> set (registered m k) \<Longrightarrow>
   calls_to l k (trace (snd (set_val e now m key value))) = calls_to l k (trace m)"
  by (simp add: set_val_def Let_def calls_to_notify calls_to_append count_list_absent
      split: option.splits bool.splits sum.splits prod.splits)

lemma setNested_calls_to:
  "l \<notin> set (registered m k) \<Longrightarrow>
   calls_to l k (trace (snd (setNested e m path value))) = calls_to l k (trace m)"
  by (simp add: setNested_def Let_def calls_to_notify count_list_absent
      split: sum.splits prod.splits)

lemma reset_loop_calls_to:
  "l \<notin> set (registered m k) \<Longrightarrow>
   calls_to l k (trace (snd (reset_loop e old m keys))) = calls_to l k (trace m)"
proof (induction keys arbitrary: m)
  case Nil
  then show ?case by simp
next
  case (Cons key keys)
  have "calls_to l k (trace (snd (reset_loop e old (notifyListeners e m key nv ov) keys))) =
        calls_to l k (trace m)" for nv ov
    using Cons.IH[of "notifyListeners e m key nv ov"] Cons.prems
    by (simp add: registered_cong[of "notifyListeners e m key nv ov" m] calls_to_notify
        count_list_absent)
  then show ?case by (simp split: sum.splits)
qed

lemma reset_calls_to:
  "l \<notin> set (registered m k) \<Longrightarrow>
   calls_to l k (trace (snd (reset e m))) = calls_to l k (trace m)"
proof -
  assume a: "l \<notin> set (registered m k)"
  have "calls_to l k (trace (snd (reset_loop e old (m\<lparr>store := h, state := st\<rparr>) keys))) =
        calls_to l k (trace m)" for old h st keys
    using reset_loop_calls_to[of l "m\<lparr>store := h, state := st\<rparr>" k e old keys] a by simp
  then show ?thesis
    by (simp add: reset_def split: sum.splits prod.splits)
qed

lemma registered_subscribe_other:
  "(k', l') \<noteq> (key, l) \<Longrightarrow> l \<notin> set (registered m key) \<Longrightarrow>
   l \<notin> set (registered (fst (subscribe m k' l')) key)"
proof (cases "k' = key")
  case True
  assume "(k', l') \<noteq> (key, l)" "l \<notin> set (registered m key)"
  with True show ?thesis
    using registered_subscribe[of m key l'] by (auto simp: set_add_def)
next
  case False
  assume "l \<notin> set (registered m key)"
  with False show ?thesis
    using subscribe_other[of key k' m l'] by (simp add: registered_def)
qed

lemma registered_unsubscribe_other:
  "l \<notin> set (registered m key) \<Longrightarrow> l \<notin> set (registered (unsubscribe k' l' m) key)"
proof (cases "k' = key")
  case True
  assume "l \<notin> set (registered m key)"
  with True show ?thesis by (simp add: registered_unsubscribe)
next
  case False
  assume "l \<notin> set (registered m key)"
  with False show ?thesis
    using unsubscribe_other[of key k' l' m] by (simp add: registered_def)
qed

lemma apply_op_silent:
  assumes "l \<notin> set (registered m key)" and "x \<noteq> Subscribe key l"
  shows "calls_to l key (trace (apply_op e m x)) = calls_to l key (trace m)
       \<and> l \<notin> set (registered (apply_op e m x) key)"
proof (cases x)
  case (Set now k v)
  then show ?thesis
    using assms(1) set_val_calls_to[of l m key e now k v]
      registered_cong[of "snd (set_val e now m k v)" m key] by simp
next
  case (SetNested path v)
  then show ?thesis
    using assms(1) setNested_calls_to[of l m key e path v]
      registered_cong[of "snd (setNested e m path v)" m key] by simp
next
  case (Subscribe k' l')
  then show ?thesis
    using assms registered_subscribe_other[of k' l' key l m] by auto
next
  case (Unsubscribe k' l')
  then show ?thesis
    using assms(1) registered_unsubscribe_other[of l m key k' l'] by simp
next
  case Reset
  then show ?thesis
    using assms(1) reset_calls_to[of l m key e] registered_cong[of "snd (reset e m)" m key]
    by simp
next
  case ClearHistory
  then show ?thesis
    using assms(1) by (simp add: clearHistory_def registered_def)
qed

lemma run_silent:
  "l \<notin> set (registered m key) \<Longrightarrow> Subscribe key l \<notin> set ops \<Longrightarrow>
   calls_to l key (trace (run e m ops)) = calls_to l key (trace m)"
  unfolding run_def
proof (induction ops arbitrary: m)
  case Nil
  then show ?case by simp
next
  case (Cons x ops)
  from Cons.prems have ne: "x \<noteq> Subscribe key l" and rest: "Subscribe key l \<notin> set ops"
    by auto
  from apply_op_silent[OF Cons.prems(1) ne, of e]
  have c: "calls_to l key (trace (apply_op e m x)) = calls_to l key (trace m)"
    and r: "l \<notin> set (registered (apply_op e m x) key)" by simp_all
  from Cons.IH[OF r rest] c show ?case by simp
qed

lemma unsubscribe_listeners_only:
  "unsubscribe key l m = m\<lparr>listeners := listeners (unsubscribe key l m)\<rparr>"
  by (simp add: unsubscribe_def Let_def split: option.splits)

lemma unsubscribe_absent:
  assumes "l \<notin> set (registered m key)" and "no_empty_sets m"
  shows "unsubscribe key l m = m"
proof (cases "map_of (listeners m) key")
  case None
  then show ?thesis by (simp add: unsubscribe_def)
next
  case (Some ls)
  from Some have "(key, ls) \<in> set (listeners m)" by (rule map_of_SomeD)
  with assms(2) have ne: "ls \<noteq> []" by (auto simp: no_empty_sets_def list_all_iff)
  from assms(1) Some have "removeAll l ls = ls" by (simp add: registered_def)
  with Some ne show ?thesis
    by (simp add: unsubscribe_def set_delete_def Let_def update_idem)
qed

subsection \<open>The closure\<close>

text \<open>
  Claim C9, as amended. \<open>subscribe\<close> adds the listener to the set of its key and returns a
  closure. Applied to the manager as it is at any later time, the closure removes that
  listener from the set of the key and changes nothing else: the sets of all other keys,
  the store, the state, the history and the trace are as before, and the entry of the
  key is removed from the registry when its set becomes empty, so a registry without
  empty sets stays without empty sets. A call of the closure changes nothing when the
  listener is not registered under the key, so an immediate second call changes
  nothing. After a call, whatever is called on the manager, the listener is not invoked
  for the key as long as it is not subscribed under the key again.
\<close>

theorem unsubscribe_closure:
  assumes "subscribe m key l = (m1, unsub)"
  shows "registered m1 key = set_add l (registered m key)
       \<and> (no_empty_sets m \<longrightarrow> no_empty_sets m1)
       \<and> (\<forall>m'. registered (unsub m') key = removeAll l (registered m' key)
            \<and> (\<forall>k'. k' \<noteq> key \<longrightarrow>
                  map_of (listeners (unsub m')) k' = map_of (listeners m') k')
            \<and> (registered (unsub m') key = [] \<longrightarrow> map_of (listeners (unsub m')) key = None)
            \<and> (no_empty_sets m' \<longrightarrow> no_empty_sets (unsub m'))
            \<and> unsub m' = m'\<lparr>listeners := listeners (unsub m')\<rparr>
            \<and> unsub (unsub m') = unsub m'
            \<and> (l \<notin> set (registered m' key) \<and> no_empty_sets m' \<longrightarrow> unsub m' = m')
            \<and> (\<forall>e nv ov. calls_of (trace (notifyListeners e (unsub m') key nv ov)) =
                  calls_of (trace m') @
                    map (\<lambda>x. (x, nv, ov, key)) (removeAll l (registered m' key)))
            \<and> (\<forall>e ops. Subscribe key l \<notin> set ops \<longrightarrow>
                  calls_to l key (trace (run e (unsub m') ops)) = calls_to l key (trace m')))"
proof -
  have m1: "m1 = fst (subscribe m key l)" and u: "unsub = unsubscribe key l"
    using assms snd_subscribe[of m key l] by simp_all
  have a: "registered m1 key = set_add l (registered m key)"
    unfolding m1 by (rule registered_subscribe)
  have b: "no_empty_sets m \<longrightarrow> no_empty_sets m1"
    unfolding m1 by (simp add: no_empty_sets_subscribe)
  have c: "registered (unsub m') key = removeAll l (registered m' key)" for m'
    unfolding u by (rule registered_unsubscribe)
  have d: "\<forall>k'. k' \<noteq> key \<longrightarrow> map_of (listeners (unsub m')) k' = map_of (listeners m') k'" for m'
    unfolding u by (simp add: unsubscribe_other)
  have f: "registered (unsub m') key = [] \<longrightarrow> map_of (listeners (unsub m')) key = None" for m'
    unfolding u using unsubscribe_pruned[of l m' key] by (simp add: registered_unsubscribe)
  have g: "no_empty_sets m' \<longrightarrow> no_empty_sets (unsub m')" for m'
    unfolding u by (simp add: no_empty_sets_unsubscribe)
  have i: "unsub m' = m'\<lparr>listeners := listeners (unsub m')\<rparr>" for m'
    unfolding u by (rule unsubscribe_listeners_only)
  have j: "unsub (unsub m') = unsub m'" for m'
    unfolding u by (rule unsubscribe_idem)
  have k: "l \<notin> set (registered m' key) \<and> no_empty_sets m' \<longrightarrow> unsub m' = m'" for m'
    unfolding u by (simp add: unsubscribe_absent)
  have n: "\<forall>e nv ov. calls_of (trace (notifyListeners e (unsub m') key nv ov)) =
      calls_of (trace m') @ map (\<lambda>x. (x, nv, ov, key)) (removeAll l (registered m' key))" for m'
    unfolding u
    by (simp add: notifyListeners_trace calls_of_append calls_of_forEach registered_unsubscribe)
  have r: "\<forall>e ops. Subscribe key l \<notin> set ops \<longrightarrow>
      calls_to l key (trace (run e (unsub m') ops)) = calls_to l key (trace m')" for m'
  proof (intro allI impI)
    fix e ops
    assume ns: "Subscribe key l \<notin> set ops"
    have "l \<notin> set (registered (unsub m') key)" by (simp add: c)
    from run_silent[OF this ns, of e] show
      "calls_to l key (trace (run e (unsub m') ops)) = calls_to l key (trace m')"
      unfolding u by simp
  qed
  show ?thesis
    by (intro conjI allI a b c d[rule_format] f g i j k n[rule_format] r[rule_format] impI)
      (auto simp: d f g k r)
qed

theorem unsubscribe_closure_witness:
  "subscribe two_listeners ''activeTab'' 3 = (two_listeners, unsubscribe ''activeTab'' 3)
   \<and> registered two_listeners ''activeTab'' = [3, 4]
   \<and> registered (unsubscribe ''activeTab'' 3 two_listeners) ''activeTab'' = [4]
   \<and> registered (unsubscribe ''activeTab'' 4 (unsubscribe ''activeTab'' 3 two_listeners))
        ''activeTab'' = []
   \<and> map_of (listeners (unsubscribe ''activeTab'' 4 (unsubscribe ''activeTab'' 3 two_listeners)))
        ''activeTab'' = None
   \<and> no_empty_sets two_listeners
   \<and> no_empty_sets (unsubscribe ''activeTab'' 3 two_listeners)
   \<and> unsubscribe ''activeTab'' 3 (unsubscribe ''activeTab'' 3 two_listeners) =
       unsubscribe ''activeTab'' 3 two_listeners
   \<and> Subscribe ''activeTab'' 3 \<notin> set [Set 7 ''activeTab'' (VStr ''income''), Reset]
   \<and> calls_to 3 ''activeTab''
        (trace (run quiet (unsubscribe ''activeTab'' 3 two_listeners)
           [Set 7 ''activeTab'' (VStr ''income''), Reset])) = 0
   \<and> calls_of (trace (snd (set_val quiet 7 (unsubscribe ''activeTab'' 3 two_listeners)
        ''activeTab'' (VStr ''income'')))) =
       [(4, VStr ''income'', VStr ''overview'', ''activeTab'')]"
proof -
  let ?u = "unsubscribe ''activeTab'' 3"
  have r2: "registered two_listeners ''activeTab'' = [3, 4]"
    by (rule registered_two_listeners)
  have s: "subscribe two_listeners ''activeTab'' 3 = (two_listeners, ?u)"
  proof -
    from r2 obtain ls where ls: "map_of (listeners two_listeners) ''activeTab'' = Some ls"
      and l3: "3 \<in> set ls"
      by (cases "map_of (listeners two_listeners) ''activeTab''") (auto simp: registered_def)
    then show ?thesis
      by (simp add: subscribe_def Let_def set_add_def update_idem)
  qed
  have "no_empty_sets fresh"
    by (simp add: no_empty_sets_def)
  then have ne: "no_empty_sets two_listeners"
    unfolding two_listeners_def by (intro no_empty_sets_subscribe)
  have tr: "trace two_listeners = []"
    by (simp add: two_listeners_def)
  note uc = unsubscribe_closure[OF s]
  from uc have r3: "registered (?u two_listeners) ''activeTab'' = [4]"
    by (simp add: r2)
  have s4: "subscribe (?u two_listeners) ''activeTab'' 4 =
      (fst (subscribe (?u two_listeners) ''activeTab'' 4), unsubscribe ''activeTab'' 4)"
    by (simp add: subscribe_def Let_def)
  from unsubscribe_closure[OF s4]
  have r4: "registered (unsubscribe ''activeTab'' 4 (?u two_listeners)) ''activeTab'' = []"
    and p4: "map_of (listeners (unsubscribe ''activeTab'' 4 (?u two_listeners))) ''activeTab'' =
      None"
    by (simp_all add: r3)
  from uc ne have ne3: "no_empty_sets (?u two_listeners)" by simp
  from uc have idem: "?u (?u two_listeners) = ?u two_listeners" by simp
  have ns: "Subscribe ''activeTab'' 3 \<notin> set [Set 7 ''activeTab'' (VStr ''income''), Reset]"
    by simp
  from uc have sl: "Subscribe ''activeTab'' 3 \<notin> set [Set 7 ''activeTab'' (VStr ''income''), Reset]
      \<longrightarrow> calls_to 3 ''activeTab''
        (trace (run quiet (?u two_listeners) [Set 7 ''activeTab'' (VStr ''income''), Reset])) =
          calls_to 3 ''activeTab'' (trace two_listeners)"
    by blast
  from sl ns have silent: "calls_to 3 ''activeTab''
        (trace (run quiet (?u two_listeners) [Set 7 ''activeTab'' (VStr ''income''), Reset])) = 0"
    by (simp add: tr)
  have old: "get (?u two_listeners) ''activeTab'' = VStr ''overview''"
    by (simp add: get_def two_listeners_def root_fresh fresh_root_def own_or_inherited_def)
  have pr: "plain_root (?u two_listeners)"
    by (simp add: plain_root_def two_listeners_def root_fresh)
  have nr: "\<not> rejected (?u two_listeners) ''activeTab'' (VStr ''income'')"
    by (simp add: rejected_def two_listeners_def setupValidators_def activeTab_validator_def
        array_includes_def validTabs_def)
  have lk: "lookup_obj (store (?u two_listeners)) 21 = Some (Obj Plain fresh_root)"
    by (simp add: two_listeners_def root_fresh)
  have sv: "set_val quiet 7 (?u two_listeners) ''activeTab'' (VStr ''income'') =
      (Normal,
       (?u two_listeners)\<lparr>store := (store (?u two_listeners))[21 := Obj Plain
              (AList.update ''activeTab'' (VStr ''income'') fresh_root)],
          history := push_history (history (?u two_listeners))
            \<lparr>h_key = ''activeTab'', h_oldValue = get (?u two_listeners) ''activeTab'',
             h_newValue = VStr ''income'', h_timestamp = 7\<rparr>,
          trace := trace (?u two_listeners) @
            forEach_listener quiet ''activeTab'' (VStr ''income'')
              (get (?u two_listeners) ''activeTab'') (registered (?u two_listeners) ''activeTab'')\<rparr>)"
    using pr
  proof (rule set_val_primitive)
    show "\<not> rejected (?u two_listeners) ''activeTab'' (VStr ''income'')" by (rule nr)
    show "state (?u two_listeners) = VRef 21" by (simp add: two_listeners_def)
    show "lookup_obj (store (?u two_listeners)) 21 = Some (Obj Plain fresh_root)" by (rule lk)
  qed (simp_all add: old strict_eq_def)
  have cs: "calls_of (trace (snd (set_val quiet 7 (?u two_listeners) ''activeTab''
        (VStr ''income'')))) = [(4, VStr ''income'', VStr ''overview'', ''activeTab'')]"
    unfolding sv by (simp add: old r3 tr calls_of_invoke)
  show ?thesis
    by (intro conjI s r2 r3 r4 p4 ne ne3 idem ns silent cs)
qed

text \<open>
  The claim as stated fails when the listener is subscribed again: after
  \<^verbatim>\<open>subscribe('activeTab', l3)\<close>, a call of the closure and a second
  \<^verbatim>\<open>subscribe('activeTab', l3)\<close>, a second call of the first closure is no no-op: it removes
  the new subscription, and the listener is not notified of the next committed change.
\<close>

theorem resubscribed_closure_counterexample:
  "stateManager quiet = Inr fresh
   \<and> registered (fst (subscribe fresh ''activeTab'' 3)) ''activeTab'' = [3]
   \<and> registered (first_closure (fst (subscribe fresh ''activeTab'' 3))) ''activeTab'' = []
   \<and> registered resubscribed ''activeTab'' = [3]
   \<and> first_closure resubscribed \<noteq> resubscribed
   \<and> registered (first_closure resubscribed) ''activeTab'' = []
   \<and> calls_of (trace (snd (set_val quiet 7 resubscribed ''activeTab'' (VStr ''income'')))) =
       [(3, VStr ''income'', VStr ''overview'', ''activeTab'')]
   \<and> fst (set_val quiet 7 (first_closure resubscribed) ''activeTab'' (VStr ''income'')) = Normal
   \<and> get (snd (set_val quiet 7 (first_closure resubscribed) ''activeTab'' (VStr ''income'')))
        ''activeTab'' = VStr ''income''
   \<and> calls_of (trace (snd (set_val quiet 7 (first_closure resubscribed) ''activeTab''
        (VStr ''income'')))) = []"
proof -
  let ?m1 = "fst (subscribe fresh ''activeTab'' 3)"
  have fc: "first_closure = unsubscribe ''activeTab'' 3"
    by (simp add: first_closure_def snd_subscribe)
  have r1: "registered ?m1 ''activeTab'' = [3]"
    by (simp add: registered_subscribe registered_fresh set_add_def)
  have r2: "registered (first_closure ?m1) ''activeTab'' = []"
    by (simp add: fc registered_unsubscribe r1)
  have r3: "registered resubscribed ''activeTab'' = [3]"
    by (simp add: resubscribed_def registered_subscribe r2 set_add_def)
  have r4: "registered (first_closure resubscribed) ''activeTab'' = []"
    by (simp add: fc registered_unsubscribe r3)
  have ne: "first_closure resubscribed \<noteq> resubscribed"
    using r3 r4 by auto
  have fields: "store resubscribed = store fresh" "state resubscribed = VRef 21"
    "trace resubscribed = []" "history resubscribed = []"
    "validators resubscribed = setupValidators Map.empty"
    by (simp_all add: resubscribed_def fc)
  have old: "get resubscribed ''activeTab'' = VStr ''overview''"
    "get (first_closure resubscribed) ''activeTab'' = VStr ''overview''"
    by (simp_all add: get_def fc fields root_fresh fresh_root_def own_or_inherited_def)
  have pr: "plain_root resubscribed" "plain_root (first_closure resubscribed)"
    by (simp_all add: plain_root_def fc fields root_fresh)
  have nr: "\<not> rejected resubscribed ''activeTab'' (VStr ''income'')"
    "\<not> rejected (first_closure resubscribed) ''activeTab'' (VStr ''income'')"
    by (simp_all add: rejected_def fc fields setupValidators_def activeTab_validator_def
        array_includes_def validTabs_def)
  have lk: "lookup_obj (store resubscribed) 21 = Some (Obj Plain fresh_root)"
    "lookup_obj (store (first_closure resubscribed)) 21 = Some (Obj Plain fresh_root)"
    by (simp_all add: fc fields root_fresh)
  have sv1: "set_val quiet 7 resubscribed ''activeTab'' (VStr ''income'') =
      (Normal,
       resubscribed\<lparr>store := (store resubscribed)[21 := Obj Plain
              (AList.update ''activeTab'' (VStr ''income'') fresh_root)],
          history := push_history (history resubscribed)
            \<lparr>h_key = ''activeTab'', h_oldValue = get resubscribed ''activeTab'',
             h_newValue = VStr ''income'', h_timestamp = 7\<rparr>,
          trace := trace resubscribed @
            forEach_listener quiet ''activeTab'' (VStr ''income'')
              (get resubscribed ''activeTab'') (registered resubscribed ''activeTab'')\<rparr>)"
    using pr(1)
  proof (rule set_val_primitive)
    show "\<not> rejected resubscribed ''activeTab'' (VStr ''income'')" by (rule nr(1))
    show "state resubscribed = VRef 21" by (rule fields(2))
    show "lookup_obj (store resubscribed) 21 = Some (Obj Plain fresh_root)" by (rule lk(1))
  qed (simp_all add: old strict_eq_def)
  have c1: "calls_of (trace (snd (set_val quiet 7 resubscribed ''activeTab'' (VStr ''income'')))) =
       [(3, VStr ''income'', VStr ''overview'', ''activeTab'')]"
    unfolding sv1 by (simp add: old r3 fields calls_of_invoke)
  let ?m = "first_closure resubscribed"
  have fields2: "state ?m = VRef 21" "trace ?m = []"
    by (simp_all add: fc fields)
  have sv: "set_val quiet 7 ?m ''activeTab'' (VStr ''income'') =
      (Normal,
       ?m\<lparr>store := (store ?m)[21 := Obj Plain
              (AList.update ''activeTab'' (VStr ''income'') fresh_root)],
          history := push_history (history ?m)
            \<lparr>h_key = ''activeTab'', h_oldValue = get ?m ''activeTab'',
             h_newValue = VStr ''income'', h_timestamp = 7\<rparr>,
          trace := trace ?m @
            forEach_listener quiet ''activeTab'' (VStr ''income'')
              (get ?m ''activeTab'') (registered ?m ''activeTab'')\<rparr>)"
    using pr(2)
  proof (rule set_val_primitive)
    show "\<not> rejected ?m ''activeTab'' (VStr ''income'')" by (rule nr(2))
    show "state ?m = VRef 21" by (rule fields2(1))
    show "lookup_obj (store ?m) 21 = Some (Obj Plain fresh_root)" by (rule lk(2))
  qed (simp_all add: old strict_eq_def)
  have c2: "fst (set_val quiet 7 ?m ''activeTab'' (VStr ''income'')) = Normal"
    unfolding sv by simp
  have c3: "calls_of (trace (snd (set_val quiet 7 ?m ''activeTab'' (VStr ''income'')))) = []"
    unfolding sv by (simp add: r4 fields2)
  have de: "deepEqual (stack quiet) (store ?m) (get ?m ''activeTab'') (VStr ''income'') =
      Some False"
    by (simp add: old deepEqual_non_array array_items_def strict_eq_def)
  have c4: "get (snd (set_val quiet 7 ?m ''activeTab'' (VStr ''income''))) ''activeTab'' =
      VStr ''income''"
    using de nr(2) pr(2) by (rule set_val_get_committed) simp
  show ?thesis
    by (intro conjI stateManager_quiet r1 r2 r3 ne r4 c1 c2 c4 c3)
qed

section \<open>Subscribing twice\<close>

text \<open>
  Claim C10. The registry keeps a set per key: subscribing a listener a second time
  under the same key leaves the manager as the first subscription left it and returns
  the same closure; the listener is in the set once, a notification for the key invokes
  it once, and so does a call of \<open>set\<close> that passes: it returns normally and its
  notification invokes the listener exactly once, with the new value, the old value and
  the key. A single call of either closure, on the manager as it is at any later time,
  removes the listener from the set, and whatever is called on the manager afterwards,
  the listener is not invoked for the key as long as it is not subscribed again.
\<close>

theorem subscribe_twice:
  assumes "distinct (registered m key)"
    and "subscribe m key l = (m1, unsub1)" and "subscribe m1 key l = (m2, unsub2)"
  shows "m2 = m1 \<and> unsub2 = unsub1
       \<and> count_list (registered m2 key) l = 1
       \<and> (\<forall>e nv ov. count_list (map fst (calls_of (trace (notifyListeners e m2 key nv ov)))) l =
            count_list (map fst (calls_of (trace m2))) l + 1)
       \<and> (\<forall>e now value. passes e m2 key value \<longrightarrow>
            fst (set_val e now m2 key value) = Normal
          \<and> calls_of (trace (snd (set_val e now m2 key value))) =
              calls_of (trace m2) @ map (\<lambda>x. (x, value, get m2 key, key)) (registered m2 key)
          \<and> calls_to l key (trace (snd (set_val e now m2 key value))) =
              calls_to l key (trace m2) + 1)
       \<and> (\<forall>m'. l \<notin> set (registered (unsub1 m') key) \<and> l \<notin> set (registered (unsub2 m') key)
            \<and> (\<forall>k'. k' \<noteq> key \<longrightarrow>
                  map_of (listeners (unsub1 m')) k' = map_of (listeners m') k')
            \<and> (\<forall>e ops. Subscribe key l \<notin> set ops \<longrightarrow>
                  calls_to l key (trace (run e (unsub1 m') ops)) = calls_to l key (trace m')))"
proof -
  have m1: "m1 = fst (subscribe m key l)" and u1: "unsub1 = unsubscribe key l"
    using assms(2) snd_subscribe[of m key l] by simp_all
  have u2: "unsub2 = unsubscribe key l"
    using assms(3) snd_subscribe[of m1 key l] by simp
  have r1: "registered m1 key = set_add l (registered m key)"
    unfolding m1 by (rule registered_subscribe)
  have mem: "l \<in> set (registered m1 key)"
    unfolding r1 by (simp add: set_add_def)
  then obtain ls where ls: "map_of (listeners m1) key = Some ls" and lin: "l \<in> set ls"
    by (cases "map_of (listeners m1) key") (auto simp: registered_def)
  have "fst (subscribe m1 key l) = m1"
    using ls lin by (simp add: subscribe_def Let_def set_add_def update_idem)
  then have m2: "m2 = m1" using assms(3) by simp
  have d1: "distinct (registered m1 key)"
    unfolding r1 using assms(1) by (simp add: set_add_def)
  have c: "count_list (registered m1 key) l = 1"
    using d1 mem by (rule count_list_distinct)
  have a: "\<forall>e nv ov. count_list (map fst (calls_of (trace (notifyListeners e m1 key nv ov)))) l =
            count_list (map fst (calls_of (trace m1))) l + 1"
    by (simp add: c notifyListeners_trace calls_of_append calls_of_forEach comp_def)
  have b: "fst (set_val e now m1 key value) = Normal
          \<and> calls_of (trace (snd (set_val e now m1 key value))) =
              calls_of (trace m1) @ map (\<lambda>x. (x, value, get m1 key, key)) (registered m1 key)
          \<and> calls_to l key (trace (snd (set_val e now m1 key value))) =
              calls_to l key (trace m1) + 1"
    if "passes e m1 key value" for e now "value"
    using set_val_commit[OF that, of now]
    by (auto simp: calls_of_append calls_of_forEach calls_to_append calls_to_forEach c)
  have g: "l \<notin> set (registered (unsubscribe key l m') key)" for m'
    by (simp add: registered_unsubscribe)
  have h: "\<forall>k'. k' \<noteq> key \<longrightarrow>
      map_of (listeners (unsubscribe key l m')) k' = map_of (listeners m') k'" for m'
    by (simp add: unsubscribe_other)
  have r: "\<forall>e ops. Subscribe key l \<notin> set ops \<longrightarrow>
      calls_to l key (trace (run e (unsubscribe key l m') ops)) = calls_to l key (trace m')"
    for m'
    using run_silent[OF g[of m']] by simp
  show ?thesis
    unfolding m2 u1 u2 using c a b g h r by blast
qed

theorem subscribe_twice_witness:
  "distinct (registered fresh ''activeTab'')
   \<and> subscribe fresh ''activeTab'' 3 =
       (fst (subscribe fresh ''activeTab'' 3), unsubscribe ''activeTab'' 3)
   \<and> subscribe (fst (subscribe fresh ''activeTab'' 3)) ''activeTab'' 3 =
       (fst (subscribe fresh ''activeTab'' 3), unsubscribe ''activeTab'' 3)
   \<and> registered (fst (subscribe fresh ''activeTab'' 3)) ''activeTab'' = [3]
   \<and> passes quiet (fst (subscribe fresh ''activeTab'' 3)) ''activeTab'' (VStr ''income'')
   \<and> fst (set_val quiet 7 (fst (subscribe fresh ''activeTab'' 3)) ''activeTab''
        (VStr ''income'')) = Normal
   \<and> calls_of (trace (snd (set_val quiet 7 (fst (subscribe fresh ''activeTab'' 3)) ''activeTab''
        (VStr ''income'')))) = [(3, VStr ''income'', VStr ''overview'', ''activeTab'')]
   \<and> registered (unsubscribe ''activeTab'' 3 (fst (subscribe fresh ''activeTab'' 3)))
        ''activeTab'' = []
   \<and> Subscribe ''activeTab'' 3 \<notin> set [Set 7 ''activeTab'' (VStr ''income'')]
   \<and> calls_to 3 ''activeTab''
        (trace (run quiet (unsubscribe ''activeTab'' 3 (fst (subscribe fresh ''activeTab'' 3)))
           [Set 7 ''activeTab'' (VStr ''income'')])) = 0"
proof -
  let ?m1 = "fst (subscribe fresh ''activeTab'' 3)"
  have s1: "subscribe fresh ''activeTab'' 3 = (?m1, unsubscribe ''activeTab'' 3)"
    by (simp add: subscribe_def Let_def)
  have d: "distinct (registered fresh ''activeTab'')"
    by (simp add: registered_fresh)
  have r: "registered ?m1 ''activeTab'' = [3]"
    by (simp add: registered_subscribe registered_fresh set_add_def)
  have s2: "subscribe ?m1 ''activeTab'' 3 = (?m1, unsubscribe ''activeTab'' 3)"
  proof -
    from r obtain ls where ls: "map_of (listeners ?m1) ''activeTab'' = Some ls"
      and l3: "3 \<in> set ls"
      by (cases "map_of (listeners ?m1) ''activeTab''") (auto simp: registered_def)
    then show ?thesis
      by (simp add: subscribe_def Let_def set_add_def update_idem)
  qed
  note st = subscribe_twice[OF d s1 s2]
  have old: "get ?m1 ''activeTab'' = VStr ''overview''"
    by (simp add: get_fresh fresh_root_def own_or_inherited_def)
  have pr: "plain_root ?m1"
    by (simp add: plain_root_def root_fresh)
  have nr: "\<not> rejected ?m1 ''activeTab'' (VStr ''income'')"
    by (simp add: rejected_def setupValidators_def activeTab_validator_def array_includes_def
        validTabs_def)
  have ps: "passes quiet ?m1 ''activeTab'' (VStr ''income'')"
    using pr _ _ _ _ nr
    by (rule passes_primitive)
       (simp_all add: get_fresh fresh_root_def own_or_inherited_def strict_eq_def)
  from st have cm: "passes quiet ?m1 ''activeTab'' (VStr ''income'') \<longrightarrow>
      fst (set_val quiet 7 ?m1 ''activeTab'' (VStr ''income'')) = Normal
      \<and> calls_of (trace (snd (set_val quiet 7 ?m1 ''activeTab'' (VStr ''income'')))) =
          calls_of (trace ?m1) @
            map (\<lambda>x. (x, VStr ''income'', get ?m1 ''activeTab'', ''activeTab''))
              (registered ?m1 ''activeTab'')"
    by blast
  from cm ps have n: "fst (set_val quiet 7 ?m1 ''activeTab'' (VStr ''income'')) = Normal"
    by blast
  from cm ps have "calls_of (trace (snd (set_val quiet 7 ?m1 ''activeTab'' (VStr ''income'')))) =
          calls_of (trace ?m1) @
            map (\<lambda>x. (x, VStr ''income'', get ?m1 ''activeTab'', ''activeTab''))
              (registered ?m1 ''activeTab'')"
    by blast
  then have cs: "calls_of (trace (snd (set_val quiet 7 ?m1 ''activeTab'' (VStr ''income'')))) =
      [(3, VStr ''income'', VStr ''overview'', ''activeTab'')]"
    unfolding r old by simp
  have ru: "registered (unsubscribe ''activeTab'' 3 ?m1) ''activeTab'' = []"
    by (simp add: registered_unsubscribe r)
  have ns: "Subscribe ''activeTab'' 3 \<notin> set [Set 7 ''activeTab'' (VStr ''income'')]"
    by simp
  from st have sl: "Subscribe ''activeTab'' 3 \<notin> set [Set 7 ''activeTab'' (VStr ''income'')] \<longrightarrow>
      calls_to 3 ''activeTab''
        (trace (run quiet (unsubscribe ''activeTab'' 3 ?m1)
           [Set 7 ''activeTab'' (VStr ''income'')])) = calls_to 3 ''activeTab'' (trace ?m1)"
    by blast
  from sl ns have silent: "calls_to 3 ''activeTab''
        (trace (run quiet (unsubscribe ''activeTab'' 3 ?m1)
           [Set 7 ''activeTab'' (VStr ''income'')])) = 0"
    by simp
  show ?thesis
    by (intro conjI d s1 s2 r ps n cs ru ns silent)
qed

section \<open>The history log\<close>





lemma setNested_history [simp]: "history (snd (setNested e m path value)) = history m"
  by (simp add: setNested_def Let_def split: prod.splits sum.splits)

lemma reset_loop_history [simp]: "history (snd (reset_loop e old m keys)) = history m"
  by (induction keys arbitrary: m) (simp_all split: sum.splits)

lemma reset_history [simp]: "history (snd (reset e m)) = history m"
  by (simp add: reset_def split: sum.splits prod.splits)







subsection \<open>A hundred and fifty committed calls\<close>






section \<open>The equality of the short-circuit\<close>

lemma js_equal_cases:
  "js_equal h a b \<longleftrightarrow>
     strict_eq a b \<or> (\<exists>xs ys. array_items h a = Some xs \<and> array_items h b = Some ys
                            \<and> list_all2 (js_equal h) xs ys)"
  by (auto intro: js_equal.intros elim: js_equal.cases)

lemma eq_loop_True:
  assumes "\<And>x y. x \<in> set xs \<Longrightarrow> rec x y = Some True \<Longrightarrow> P x y"
  shows "length xs = length ys \<Longrightarrow> eq_loop rec xs ys = Some True \<Longrightarrow> list_all2 P xs ys"
  using assms
proof (induction rec xs ys rule: eq_loop.induct)
  case (1 rec x xs y ys)
  then show ?case by (auto split: option.splits bool.splits)
qed simp_all

lemma eq_loop_False:
  assumes "\<And>x y. x \<in> set xs \<Longrightarrow> rec x y = Some False \<Longrightarrow> \<not> P x y"
  shows "eq_loop rec xs ys = Some False \<Longrightarrow> \<not> list_all2 P xs ys"
  using assms
proof (induction rec xs ys rule: eq_loop.induct)
  case (1 rec x xs y ys)
  then show ?case by (auto split: option.splits bool.splits)
qed simp_all

lemma eq_loop_total:
  assumes "\<And>x y. x \<in> set xs \<Longrightarrow> rec x y \<noteq> None"
  shows "eq_loop rec xs ys \<noteq> None"
  using assms
proof (induction rec xs ys rule: eq_loop.induct)
  case (1 rec x xs y ys)
  then show ?case by (auto split: option.splits bool.splits)
qed simp_all

lemma array_items_VNull [simp]: "array_items h VNull = None"
  by (simp add: array_items_def)

lemma deepEqual_body_sound:
  assumes rec: "\<And>x y r. rec x y = Some r \<Longrightarrow> r = js_equal h x y"
    and res: "deepEqual_body rec h a b = Some r"
  shows "r = js_equal h a b"
proof (cases "strict_eq a b")
  case True
  then show ?thesis using res by (auto simp: deepEqual_body_def intro: js_equal.identical)
next
  case ns: False
  show ?thesis
  proof (cases "array_items h a")
    case None
    then show ?thesis using ns res
      by (subst js_equal_cases) (auto simp: deepEqual_body_def split: if_splits)
  next
    case (Some xs)
    note xs = this
    show ?thesis
    proof (cases "array_items h b")
      case None
      then show ?thesis using ns xs res
        by (subst js_equal_cases) (auto simp: deepEqual_body_def split: if_splits)
    next
      case (Some ys)
      have nn: "a \<noteq> VNull" "b \<noteq> VNull"
        using xs Some by auto
      show ?thesis
      proof (cases "length xs = length ys")
        case False
        then show ?thesis using ns xs Some nn res
          by (subst js_equal_cases) (auto simp: deepEqual_body_def dest: list_all2_lengthD)
      next
        case True
        with ns xs Some nn res have el: "eq_loop rec xs ys = Some r"
          by (simp add: deepEqual_body_def)
        show ?thesis
        proof (cases r)
          case True
          have "list_all2 (js_equal h) xs ys"
            using \<open>length xs = length ys\<close> el True rec
            by (intro eq_loop_True[of xs rec]) auto
          then show ?thesis using True xs Some by (auto intro: js_equal.arrays)
        next
          case False
          have "\<not> list_all2 (js_equal h) xs ys"
            using el False rec
            by (intro eq_loop_False[of xs rec]) auto
          then show ?thesis using False ns xs Some
            by (subst js_equal_cases) auto
        qed
      qed
    qed
  qed
qed

lemma deepEqual_sound:
  "deepEqual n h a b = Some r \<Longrightarrow> r = js_equal h a b"
proof (induction n arbitrary: a b r)
  case 0
  then show ?case
    using deepEqual_body_sound[of "\<lambda>x y. None" h a b r] by simp
next
  case (Suc n)
  then show ?case
    using deepEqual_body_sound[of "deepEqual n h" h a b r] by simp
qed

lemma deepEqual_total: "array_depth n h a \<Longrightarrow> deepEqual n h a b \<noteq> None"
proof (induction n arbitrary: a b)
  case 0
  then show ?case
    by (auto simp: deepEqual_body_def split: option.splits)
next
  case (Suc n)
  then show ?case
    using eq_loop_total[of _ "deepEqual n h"]
    by (auto simp: deepEqual_body_def list_all_iff split: option.splits)
qed

lemma deepEqual_correct:
  "array_depth n h a \<Longrightarrow> deepEqual n h a b = Some (js_equal h a b)"
  using deepEqual_total[of n h a b] deepEqual_sound[of n h a b] by auto

lemma array_items_plain: "is_plain h v \<Longrightarrow> array_items h v = None"
  by (cases v) (auto simp: array_items_def split: option.splits obj.splits okind.splits)

lemma array_items_not_null: "array_items h a = Some xs \<Longrightarrow> a \<noteq> VNull"
  by (auto simp: array_items_def)

lemma deepEqual_plain:
  "is_plain h a \<Longrightarrow> a \<noteq> b \<Longrightarrow> deepEqual n h a b = Some False"
  by (simp add: deepEqual_non_array array_items_plain strict_eq_def)

text \<open>
  Claim C5, as amended. \<open>deepEqual\<close> computes the equality of the specification:
  whatever it returns is the truth value of \<open>js_equal\<close>, and it returns when the arrays
  below the first argument nest no deeper than the stack. Apart from identical values,
  only arrays can be equal: two different plain objects are unequal whatever their
  contents. So a \<open>set\<close> of a different plain object is never short-circuited: unless a
  validator rejects it, the new object is put in the state, and when the value is
  storable (the clones for the history can be made) \<open>set\<close> returns normally, with the
  history entry appended and the listeners of the key called; a \<open>set\<close> of an array equal
  to the stored one element by element changes nothing.
\<close>

theorem deepEqual_characterisation:
  "(deepEqual n h a b = Some r \<longrightarrow> r = js_equal h a b)
   \<and> (array_depth n h a \<longrightarrow> deepEqual n h a b = Some (js_equal h a b))
   \<and> (js_equal h a b \<longleftrightarrow>
        strict_eq a b \<or>
        (\<exists>xs ys. array_items h a = Some xs \<and> array_items h b = Some ys \<and>
           length xs = length ys \<and> (\<forall>i<length xs. js_equal h (xs ! i) (ys ! i))))
   \<and> (is_plain h a \<and> a \<noteq> b \<longrightarrow> deepEqual n h a b = Some False \<and> \<not> js_equal h a b)
   \<and> (plain_root m \<and> is_plain (store m) (get m key) \<and> value \<noteq> get m key
        \<and> \<not> rejected m key value \<longrightarrow>
        deepEqual (stack e) (store m) (get m key) value = Some False
        \<and> (key \<noteq> ''__proto__'' \<longrightarrow> get (snd (set_val e now m key value)) key = value)
        \<and> (storable e m key value \<longrightarrow>
             fst (set_val e now m key value) = Normal
           \<and> (\<exists>oc nc. history (snd (set_val e now m key value)) =
                 push_history (history m)
                   \<lparr>h_key = key, h_oldValue = oc, h_newValue = nc, h_timestamp = now\<rparr>)
           \<and> calls_of (trace (snd (set_val e now m key value))) =
               calls_of (trace m) @ map (\<lambda>l. (l, value, get m key, key)) (registered m key)))
   \<and> (js_equal (store m) (get m key) value \<and> array_depth (stack e) (store m) (get m key) \<longrightarrow>
        set_val e now m key value = (Normal, m))"
proof -
  have c1: "deepEqual n h a b = Some r \<longrightarrow> r = js_equal h a b"
    using deepEqual_sound by blast
  have c2: "array_depth n h a \<longrightarrow> deepEqual n h a b = Some (js_equal h a b)"
    using deepEqual_correct by blast
  have c3: "js_equal h a b \<longleftrightarrow>
        strict_eq a b \<or>
        (\<exists>xs ys. array_items h a = Some xs \<and> array_items h b = Some ys \<and>
           length xs = length ys \<and> (\<forall>i<length xs. js_equal h (xs ! i) (ys ! i)))"
    by (subst js_equal_cases) (simp add: list_all2_conv_all_nth)
  have c4: "is_plain h a \<and> a \<noteq> b \<longrightarrow> deepEqual n h a b = Some False \<and> \<not> js_equal h a b"
    using deepEqual_plain[of h a b n] deepEqual_sound[of n h a b False] by auto
  have c5: "plain_root m \<and> is_plain (store m) (get m key) \<and> value \<noteq> get m key
        \<and> \<not> rejected m key value \<longrightarrow>
        deepEqual (stack e) (store m) (get m key) value = Some False
        \<and> (key \<noteq> ''__proto__'' \<longrightarrow> get (snd (set_val e now m key value)) key = value)
        \<and> (storable e m key value \<longrightarrow>
             fst (set_val e now m key value) = Normal
           \<and> (\<exists>oc nc. history (snd (set_val e now m key value)) =
                 push_history (history m)
                   \<lparr>h_key = key, h_oldValue = oc, h_newValue = nc, h_timestamp = now\<rparr>)
           \<and> calls_of (trace (snd (set_val e now m key value))) =
               calls_of (trace m) @ map (\<lambda>l. (l, value, get m key, key)) (registered m key))"
  proof (intro impI, elim conjE)
    assume pr: "plain_root m" and ip: "is_plain (store m) (get m key)"
      and ne: "value \<noteq> get m key" and nr: "\<not> rejected m key value"
    have de: "deepEqual (stack e) (store m) (get m key) value = Some False"
      using ip ne by (intro deepEqual_plain) auto
    have g: "key \<noteq> ''__proto__'' \<longrightarrow> get (snd (set_val e now m key value)) key = value"
      using set_val_get_committed[OF de nr pr] by blast
    have r: "fst (set_val e now m key value) = Normal
           \<and> (\<exists>oc nc. history (snd (set_val e now m key value)) =
                 push_history (history m)
                   \<lparr>h_key = key, h_oldValue = oc, h_newValue = nc, h_timestamp = now\<rparr>)
           \<and> calls_of (trace (snd (set_val e now m key value))) =
               calls_of (trace m) @ map (\<lambda>l. (l, value, get m key, key)) (registered m key)"
      if "storable e m key value"
    proof -
      from that de nr have ps: "passes e m key value"
        by (simp add: passes_def)
      from set_val_commit[OF ps, of now]
      obtain h3 oc nc where sv: "set_val e now m key value =
             (Normal,
              m\<lparr>store := h3,
                history := push_history (history m)
                  \<lparr>h_key = key, h_oldValue = oc, h_newValue = nc, h_timestamp = now\<rparr>,
                trace := trace m @ forEach_listener e key value (get m key) (registered m key)\<rparr>)"
        by blast
      have "\<exists>oc nc. history (snd (set_val e now m key value)) =
                 push_history (history m)
                   \<lparr>h_key = key, h_oldValue = oc, h_newValue = nc, h_timestamp = now\<rparr>"
        unfolding sv by (intro exI[of _ oc] exI[of _ nc]) simp
      then show ?thesis
        unfolding sv by (simp add: calls_of_append calls_of_forEach)
    qed
    from de g r show "deepEqual (stack e) (store m) (get m key) value = Some False
        \<and> (key \<noteq> ''__proto__'' \<longrightarrow> get (snd (set_val e now m key value)) key = value)
        \<and> (storable e m key value \<longrightarrow>
             fst (set_val e now m key value) = Normal
           \<and> (\<exists>oc nc. history (snd (set_val e now m key value)) =
                 push_history (history m)
                   \<lparr>h_key = key, h_oldValue = oc, h_newValue = nc, h_timestamp = now\<rparr>)
           \<and> calls_of (trace (snd (set_val e now m key value))) =
               calls_of (trace m) @ map (\<lambda>l. (l, value, get m key, key)) (registered m key))"
      by blast
  qed
  have c6: "js_equal (store m) (get m key) value \<and> array_depth (stack e) (store m) (get m key) \<longrightarrow>
        set_val e now m key value = (Normal, m)"
    using deepEqual_correct[of "stack e" "store m" "get m key" "value"]
    by (auto simp: set_val_noop)
  from c1 c2 c3 c4 c5 c6 show ?thesis by blast
qed

lemma length_fresh_store: "length fresh_store = 22"
  by (simp add: fresh_store_def module_store_def)

lemma length_demo_store: "length demo_store = 26"
  by (simp add: demo_store_def length_fresh_store)

lemma demo_lookup:
  "lookup_obj demo_store 21 =
     Some (Obj Plain (AList.update ''notifications'' (VRef 22)
                        (AList.update ''formStates'' (VRef 24) fresh_root)))"
  "lookup_obj demo_store 22 = Some (Obj (Arr [VNum 1, VNum 2]) [])"
  "lookup_obj demo_store 23 = Some (Obj (Arr [VNum 1, VNum 2]) [])"
  "lookup_obj demo_store 24 = Some (Obj Plain [(''a'', VNum 1)])"
  "lookup_obj demo_store 25 = Some (Obj Plain [(''a'', VNum 1)])"
  by (simp_all add: lookup_obj_def length_demo_store)
    (simp_all add: demo_store_def nth_append length_fresh_store)

lemma demo_fields [simp]:
  "store demo = demo_store" "state demo = VRef 21" "validators demo = setupValidators Map.empty"
  "trace demo = []" "history demo = []"
  by (simp_all add: demo_def)

lemma get_demo:
  "get demo ''formStates'' = VRef 24" "get demo ''notifications'' = VRef 22"
  by (simp_all add: get_def demo_lookup own_update own_update_other)

theorem deepEqual_characterisation_witness:
  "array_depth 2 demo_store (VRef 22)
   \<and> deepEqual 2 demo_store (VRef 22) (VRef 23) = Some True
   \<and> js_equal demo_store (VRef 22) (VRef 23)
   \<and> is_plain demo_store (VRef 24) \<and> VRef 24 \<noteq> VRef 25
   \<and> deepEqual 2 demo_store (VRef 24) (VRef 25) = Some False
   \<and> plain_root demo \<and> get demo ''formStates'' = VRef 24
   \<and> \<not> rejected demo ''formStates'' (VRef 25)
   \<and> storable quiet demo ''formStates'' (VRef 25)
   \<and> get (snd (set_val quiet 7 demo ''formStates'' (VRef 25))) ''formStates'' = VRef 25
   \<and> fst (set_val quiet 7 demo ''formStates'' (VRef 25)) = Normal
   \<and> length (history (snd (set_val quiet 7 demo ''formStates'' (VRef 25)))) = 1
   \<and> get demo ''notifications'' = VRef 22
   \<and> set_val quiet 7 demo ''notifications'' (VRef 23) = (Normal, demo)"
proof -
  have two: "(2::nat) = Suc (Suc 0)" by simp
  have ad: "array_depth 2 demo_store (VRef 22)"
    unfolding two by (simp add: array_items_def demo_lookup)
  have items: "array_items demo_store (VRef 22) = Some [VNum 1, VNum 2]"
    "array_items demo_store (VRef 23) = Some [VNum 1, VNum 2]"
    by (simp_all add: array_items_def demo_lookup)
  have eq: "deepEqual 2 demo_store (VRef 22) (VRef 23) = Some True"
    unfolding two
    by (simp add: deepEqual_body_def items strict_eq_def)
  have ip: "is_plain demo_store (VRef 24)" "is_plain demo_store (VRef 25)"
    by (simp_all add: demo_lookup)
  have pr: "plain_root demo"
    by (simp add: plain_root_def demo_lookup)
  have nr: "\<not> rejected demo ''formStates'' (VRef 25)"
    by (simp add: rejected_def setupValidators_def)
  let ?h1 = "demo_store[21 := Obj Plain (AList.update ''formStates'' (VRef 25)
        (AList.update ''notifications'' (VRef 22)
          (AList.update ''formStates'' (VRef 24) fresh_root)))]"
  have sm: "set_member (store demo) (state demo) ''formStates'' (VRef 25) = Inr ?h1"
    by (simp add: demo_lookup put_def)
  have lk: "lookup_obj ?h1 24 = Some (Obj Plain [(''a'', VNum 1)])"
    "lookup_obj ?h1 25 = Some (Obj Plain [(''a'', VNum 1)])"
    using demo_lookup(4,5) by (simp_all add: lookup_obj_def split: if_splits)
  have ft: "fits (stack quiet) ?h1 (get demo ''formStates'')" "fits (stack quiet) ?h1 (VRef 25)"
    by (simp_all add: quiet_def two get_demo lk)
  have ex: "storable quiet demo ''formStates'' (VRef 25)"
    unfolding storable_def sm using ft by simp
  have st: "stack quiet = 2" by (simp add: quiet_def)
  note thm1 = deepEqual_characterisation[of 2 demo_store "VRef 22" "VRef 23" True demo
      "''notifications''" "VRef 23" quiet 7]
  note thm2 = deepEqual_characterisation[of 2 demo_store "VRef 24" "VRef 25" False demo
      "''formStates''" "VRef 25" quiet 7]
  have je: "js_equal demo_store (VRef 22) (VRef 23)"
    using thm1 eq by blast
  have noop: "set_val quiet 7 demo ''notifications'' (VRef 23) = (Normal, demo)"
    using thm1 je ad by (simp add: get_demo st)
  have ne: "deepEqual 2 demo_store (VRef 24) (VRef 25) = Some False"
    using thm2 ip by simp
  have g: "get (snd (set_val quiet 7 demo ''formStates'' (VRef 25))) ''formStates'' = VRef 25"
    and n: "fst (set_val quiet 7 demo ''formStates'' (VRef 25)) = Normal"
    and hl: "length (history (snd (set_val quiet 7 demo ''formStates'' (VRef 25)))) = 1"
    using thm2 pr ip nr ex by (auto simp: get_demo push_history_def)
  show ?thesis
    by (intro conjI ad eq je ip(1) ne pr get_demo nr ex g n hl noop) simp
qed

lemma object_tab_value:
  "object_tab =
     fresh\<lparr>store := (fresh_store @ [Obj Plain [(''a'', VNum 1)], Obj Plain [(''a'', VNum 1)]])
                    [21 := Obj Plain (AList.update ''activeTab'' (VRef 22) fresh_root)]\<rparr>"
proof -
  have lk: "lookup_obj (fresh_store @ [Obj Plain [(''a'', VNum 1)], Obj Plain [(''a'', VNum 1)]]) 21 =
      Some (Obj Plain fresh_root)"
    using root_fresh by (simp add: fresh_def lookup_obj_append)
  show ?thesis
    by (simp add: object_tab_def setNested_def Let_def lk notifyListeners_eq registered_def
        put_def)
qed

text \<open>
  The claim as stated fails on a key with a validator: when \<^verbatim>\<open>activeTab\<close> holds the object
  \<^verbatim>\<open>{a: 1}\<close>, a \<open>set\<close> with another object \<^verbatim>\<open>{a: 1}\<close> passes the short-circuit and is then
  rejected by the validator: the state keeps the first object, the history stays empty.
\<close>

theorem identical_object_rejected_counterexample:
  "get object_tab ''activeTab'' = VRef 22
   \<and> lookup_obj (store object_tab) 22 = Some (Obj Plain [(''a'', VNum 1)])
   \<and> lookup_obj (store object_tab) 23 = Some (Obj Plain [(''a'', VNum 1)])
   \<and> deepEqual (stack quiet) (store object_tab) (get object_tab ''activeTab'') (VRef 23) = Some False
   \<and> set_val quiet 7 object_tab ''activeTab'' (VRef 23) =
       (Normal, object_tab\<lparr>trace := trace object_tab @ [Warned ''activeTab'' (VRef 23)]\<rparr>)
   \<and> get (snd (set_val quiet 7 object_tab ''activeTab'' (VRef 23))) ''activeTab'' = VRef 22
   \<and> history (snd (set_val quiet 7 object_tab ''activeTab'' (VRef 23))) = []"
proof -
  let ?h = "(fresh_store @ [Obj Plain [(''a'', VNum 1)], Obj Plain [(''a'', VNum 1)]])
              [21 := Obj Plain (AList.update ''activeTab'' (VRef 22) fresh_root)]"
  have st: "store object_tab = ?h" "state object_tab = VRef 21" "history object_tab = []"
    "validators object_tab = setupValidators Map.empty"
    by (simp_all add: object_tab_value)
  have lk: "lookup_obj ?h 21 = Some (Obj Plain (AList.update ''activeTab'' (VRef 22) fresh_root))"
    "lookup_obj ?h 22 = Some (Obj Plain [(''a'', VNum 1)])"
    "lookup_obj ?h 23 = Some (Obj Plain [(''a'', VNum 1)])"
    by (simp_all add: lookup_obj_def length_fresh_store nth_append)
  have g: "get object_tab ''activeTab'' = VRef 22"
    by (simp add: get_def st lk own_update)
  have de: "deepEqual (stack quiet) (store object_tab) (get object_tab ''activeTab'') (VRef 23) =
      Some False"
    unfolding g st by (rule deepEqual_plain) (simp_all add: lk)
  have rj: "rejected object_tab ''activeTab'' (VRef 23)"
    by (simp add: rejected_def st setupValidators_def activeTab_validator_def array_includes_def)
  have sv: "set_val quiet 7 object_tab ''activeTab'' (VRef 23) =
       (Normal, object_tab\<lparr>trace := trace object_tab @ [Warned ''activeTab'' (VRef 23)]\<rparr>)"
    using de rj by (rule set_val_rejected)
  show ?thesis
    using g lk(2,3) de sv st(3) by (simp add: st(1) get_def)
qed

section \<open>Writing the stored value back\<close>

lemma get_validators_update [simp]: "get (m\<lparr>validators := vs\<rparr>) k = get m k"
  by (simp add: get_def)

text \<open>
  Claim C4, as amended. \<open>set\<close> changes nothing at all (no warning and no listener call in
  the trace, no history entry, the same store and state), whatever validators are
  registered, when \<open>deepEqual\<close> finds the value equal to the stored one: that is when the
  value is identical (\<^verbatim>\<open>===\<close>) to the stored one, or equal to it by the array rule with
  arrays nested no deeper than the stack. In particular \<open>set(k, get(k))\<close> changes nothing
  unless the stored value is \<^verbatim>\<open>NaN\<close>.
\<close>

theorem set_unchanged_noop:
  "(get m key \<noteq> VNaN \<longrightarrow> set_val e now m key (get m key) = (Normal, m))
   \<and> (strict_eq (get m key) value \<longrightarrow> set_val e now m key value = (Normal, m))
   \<and> (js_equal (store m) (get m key) value \<and> array_depth (stack e) (store m) (get m key) \<longrightarrow>
        set_val e now m key value = (Normal, m))
   \<and> (deepEqual (stack e) (store m) (get m key) value = Some True \<longrightarrow>
        set_val e now (m\<lparr>validators := vs\<rparr>) key value = (Normal, m\<lparr>validators := vs\<rparr>))"
proof -
  have a: "strict_eq (get m key) v \<Longrightarrow> set_val e now m key v = (Normal, m)" for v
    by (simp add: set_val_noop deepEqual_strict)
  have b: "js_equal (store m) (get m key) value \<and> array_depth (stack e) (store m) (get m key) \<longrightarrow>
        set_val e now m key value = (Normal, m)"
    using deepEqual_correct[of "stack e" "store m" "get m key" "value"]
    by (auto simp: set_val_noop)
  have c: "deepEqual (stack e) (store m) (get m key) value = Some True \<longrightarrow>
        set_val e now (m\<lparr>validators := vs\<rparr>) key value = (Normal, m\<lparr>validators := vs\<rparr>)"
    by (simp add: set_val_noop)
  show ?thesis
    using a[of "get m key"] a[of "value"] b c by (auto simp: strict_eq_def)
qed

theorem set_unchanged_noop_witness:
  "get demo ''notifications'' \<noteq> VNaN
   \<and> set_val quiet 7 demo ''notifications'' (get demo ''notifications'') = (Normal, demo)
   \<and> js_equal (store demo) (get demo ''notifications'') (VRef 23)
   \<and> array_depth (stack quiet) (store demo) (get demo ''notifications'')
   \<and> set_val quiet 7 demo ''notifications'' (VRef 23) = (Normal, demo)"
proof -
  have two: "(2::nat) = Suc (Suc 0)" by simp
  have items: "array_items demo_store (VRef 22) = Some [VNum 1, VNum 2]"
    "array_items demo_store (VRef 23) = Some [VNum 1, VNum 2]"
    by (simp_all add: array_items_def demo_lookup)
  have ad: "array_depth (stack quiet) (store demo) (get demo ''notifications'')"
    by (simp add: quiet_def two get_demo array_items_def demo_lookup)
  have je: "js_equal (store demo) (get demo ''notifications'') (VRef 23)"
    by (simp add: get_demo)
      (rule js_equal.arrays[OF items], simp add: js_equal.identical strict_eq_def)
  show ?thesis
    using set_unchanged_noop[of demo "''notifications''" quiet 7 "VRef 23"] ad je
    by (simp add: get_demo)
qed

lemma root_subscribed:
  "lookup_obj (store (fst (subscribe fresh k l))) 21 = Some (Obj Plain fresh_root)"
  by (simp add: root_fresh)

lemma nan_manager_value:
  "nan_manager =
     (fst (subscribe fresh ''isLoading'' 2))
       \<lparr>store := (store fresh)[21 := Obj Plain (AList.update ''isLoading'' VNaN fresh_root)],
        trace := [Called 2 VNaN (VBool False) ''isLoading'']\<rparr>"
  by (simp add: nan_manager_def setNested_def Let_def root_fresh notifyListeners_eq
      registered_subscribe registered_fresh set_add_def invoke_def quiet_def put_def)
    (simp add: fresh_root_def own_or_inherited_def)

text \<open>
  The claim as stated fails on the key \<^verbatim>\<open>isLoading\<close> once it holds \<^verbatim>\<open>NaN\<close>: writing the
  stored value back appends a history entry and calls the listener.
\<close>

theorem set_same_NaN_counterexample:
  "stateManager quiet = Inr fresh
   \<and> get nan_manager ''isLoading'' = VNaN
   \<and> history nan_manager = []
   \<and> fst (set_val quiet 7 nan_manager ''isLoading'' (get nan_manager ''isLoading'')) = Normal
   \<and> history (snd (set_val quiet 7 nan_manager ''isLoading'' (get nan_manager ''isLoading''))) =
       [\<lparr>h_key = ''isLoading'', h_oldValue = VNaN, h_newValue = VNaN, h_timestamp = 7\<rparr>]
   \<and> calls_of (trace (snd (set_val quiet 7 nan_manager ''isLoading''
        (get nan_manager ''isLoading'')))) =
       calls_of (trace nan_manager) @ [(2, VNaN, VNaN, ''isLoading'')]"
proof -
  have lk: "lookup_obj (store nan_manager) 21 =
      Some (Obj Plain (AList.update ''isLoading'' VNaN fresh_root))"
    using root_fresh by (simp add: nan_manager_value lookup_obj_def split: if_splits)
  have st: "state nan_manager = VRef 21" "history nan_manager = []"
    "validators nan_manager = setupValidators Map.empty"
    by (simp_all add: nan_manager_value)
  have g: "get nan_manager ''isLoading'' = VNaN"
    by (simp add: get_def st lk own_update)
  have pr: "plain_root nan_manager"
    by (simp add: plain_root_def st lk)
  have nr: "\<not> rejected nan_manager ''isLoading'' VNaN"
    by (simp add: rejected_def st setupValidators_def)
  have cm: "passes quiet nan_manager ''isLoading'' VNaN"
    using pr _ _ _ _ nr by (rule passes_primitive) (simp_all add: g strict_eq_def)
  have reg: "registered nan_manager ''isLoading'' = [2]"
    by (simp add: nan_manager_value registered_subscribe registered_fresh set_add_def)
  from set_val_commit[OF cm, of 7] obtain h1 h2 h3 oc nc where
    c1: "deepClone (stack quiet) h1 (get nan_manager ''isLoading'') = Inr (h2, oc)"
    and c2: "deepClone (stack quiet) h2 VNaN = Inr (h3, nc)"
    and sv: "set_val quiet 7 nan_manager ''isLoading'' VNaN =
       (Normal, nan_manager\<lparr>store := h3,
          history := push_history (history nan_manager)
            \<lparr>h_key = ''isLoading'', h_oldValue = oc, h_newValue = nc, h_timestamp = 7\<rparr>,
          trace := trace nan_manager @ forEach_listener quiet ''isLoading'' VNaN
            (get nan_manager ''isLoading'') (registered nan_manager ''isLoading'')\<rparr>)"
    by blast
  from c1 c2 have oc: "oc = VNaN" and nc: "nc = VNaN"
    by (simp_all add: g deepClone_primitive)
  show ?thesis
    using stateManager_quiet g st(2) sv oc nc reg
    by (simp add: push_history_def calls_of_append calls_of_invoke)
qed

section \<open>Nested writes\<close>

subsection \<open>Writing a property of an object\<close>

lemma length_resize [simp]: "length (resize xs n) = n"
  by (simp add: resize_def)


lemma inherited_proto: "ps \<noteq> [] \<Longrightarrow> truthy (inherited ps ''__proto__'')"
  by (cases ps) simp_all







subsection \<open>The walk along a path\<close>


lemma foldl_frame:
  assumes "\<forall>c \<in> set (cells h ob keys). get_member h' (fst c) (snd c) = get_member h (fst c) (snd c)"
  shows "foldl (opt_member h') ob keys = foldl (opt_member h) ob keys"
  using assms
proof (induction keys arbitrary: ob)
  case Nil
  then show ?case by simp
next
  case (Cons key keys)
  from Cons.prems have e: "opt_member h' ob key = opt_member h ob key"
    by (simp add: opt_member_def)
  show ?case
    using Cons.IH[of "opt_member h ob key"] Cons.prems e by simp
qed






lemma is_object_not_nullish: "is_object h ob \<Longrightarrow> \<not> nullish ob"
  by (cases ob) simp_all





lemma unnamed_not_proto: "unnamed k \<Longrightarrow> k \<noteq> ''__proto__''"
  by (auto simp: unnamed_def)

















section \<open>Reset\<close>





lemma reset_loop_fields [simp]:
  "store (snd (reset_loop e old m keys)) = store m"
  "state (snd (reset_loop e old m keys)) = state m"
  by (induction keys arbitrary: m) (simp_all split: sum.splits)



lemma reset_fields:
  assumes "deepClone (stack e) (store m) (state m) = Inr (h1, old)"
    and "deepClone (stack e) h1 initialState = Inr (h2, st)"
  shows "store (snd (reset e m)) = h2" "state (snd (reset e m)) = st"
  using assms by (simp_all add: reset_def)




























section \<open>The managers that calls can reach\<close>

text \<open>
  The theorems above take a manager whose state root is a plain object and whose registry
  is a map of sets without empty sets. These are no restrictions: the manager of the
  store module is such a manager, and every call keeps it one. No write changes what
  kind of object an object is, and the store only grows.
\<close>

lemma vivify_is_plain:
  assumes "vivify h ob key = (h', r)" and "is_plain h (VRef a)"
  shows "is_plain h' (VRef a)"
proof (cases "nullish ob \<or> is_native ob \<or> truthy (get_member h ob key)")
  case True
  with assms show ?thesis by (auto simp: vivify_def split: if_splits)
next
  case False
  let ?h1 = "h @ [Obj Plain []]"
  have p1: "is_plain ?h1 (VRef a)" using assms(2) by (rule is_plain_append)
  show ?thesis
  proof (cases "set_member ?h1 ob key (VRef (length h))")
    case (Inl err)
    with False assms(1) have "h' = ?h1" by (simp add: vivify_def alloc_def)
    with p1 show ?thesis by simp
  next
    case (Inr h2)
    with False assms(1) have "h' = h2" by (simp add: vivify_def alloc_def)
    with set_member_is_plain[OF Inr p1] show ?thesis by simp
  qed
qed

lemma walk_is_plain:
  "walk h ob keys = (h', r) \<Longrightarrow> is_plain h (VRef a) \<Longrightarrow> is_plain h' (VRef a)"
proof (induction keys arbitrary: h ob)
  case Nil
  then show ?case by simp
next
  case (Cons key keys)
  obtain h1 r1 where v: "vivify h ob key = (h1, r1)" by (cases "vivify h ob key")
  from vivify_is_plain[OF v Cons.prems(2)] have p1: "is_plain h1 (VRef a)" .
  show ?case
  proof (cases r1)
    case (Inl err)
    with Cons.prems(1) v have "h' = h1" by simp
    with p1 show ?thesis by simp
  next
    case (Inr ob1)
    with Cons.prems(1) v have "walk h1 ob1 keys = (h', r)" by simp
    from Cons.IH[OF this p1] show ?thesis .
  qed
qed

lemma setNested_state [simp]: "state (snd (setNested e m path value)) = state m"
  by (simp add: setNested_def Let_def notifyListeners_eq split: prod.splits sum.splits)

lemma setNested_is_plain:
  assumes "is_plain (store m) (VRef a)"
  shows "is_plain (store (snd (setNested e m path value))) (VRef a)"
proof (cases "last (split_dot path) = []")
  case True
  then show ?thesis using assms by (simp add: setNested_def Let_def)
next
  case False
  obtain h1 r where w: "walk (store m) (state m) (butlast (split_dot path)) = (h1, r)"
    by (cases "walk (store m) (state m) (butlast (split_dot path))")
  from walk_is_plain[OF w assms] have p1: "is_plain h1 (VRef a)" .
  show ?thesis
  proof (cases r)
    case (Inl err)
    then show ?thesis using False w p1 by (simp add: setNested_def Let_def)
  next
    case (Inr target)
    show ?thesis
    proof (cases "set_member h1 target (last (split_dot path)) value")
      case (Inl err)
      then show ?thesis using False w p1 Inr by (simp add: setNested_def Let_def)
    next
      case (Inr h2)
      from set_member_is_plain[OF Inr p1] have "is_plain h2 (VRef a)" .
      then show ?thesis using False w p1 Inr \<open>r = Inr target\<close>
        by (simp add: setNested_def Let_def notifyListeners_eq)
    qed
  qed
qed

lemma deepClone_is_plain:
  assumes "deepClone n h v = Inr (h', v')" and "is_plain h v"
  shows "is_plain h' v'"
proof -
  from is_plainD[OF assms(2)] obtain a ps where v: "v = VRef a"
    and lk: "lookup_obj h a = Some (Obj Plain ps)" by blast
  from assms(1) v obtain h1 qs where "h' = h1 @ [Obj Plain qs]" "v' = VRef (length h1)"
    by (auto simp: deepClone_ref[OF lk] clone_obj_def alloc_def
        split: sum.splits if_splits option.splits)
  then show ?thesis by (simp add: lookup_obj_def)
qed

lemma reset_is_plain:
  assumes "is_plain (store m) (VRef a)"
  shows "is_plain (store (snd (reset e m))) (VRef a)"
proof (cases "deepClone (stack e) (store m) (state m)")
  case (Inl err)
  then show ?thesis using assms by (simp add: reset_def)
next
  case (Inr r1)
  obtain h1 old where r1: "r1 = (h1, old)" by (cases r1)
  from Inr r1 have c1: "deepClone (stack e) (store m) (state m) = Inr (h1, old)" by simp
  from deepClone_grows[OF c1] obtain z1 where h1: "h1 = store m @ z1" by auto
  have p1: "is_plain h1 (VRef a)" using assms h1 by (simp add: is_plain_append del: is_plain.simps)
  show ?thesis
  proof (cases "deepClone (stack e) h1 initialState")
    case (Inl err)
    then show ?thesis using c1 p1 by (simp add: reset_def)
  next
    case (Inr r2)
    obtain h2 st where r2: "r2 = (h2, st)" by (cases r2)
    from Inr r2 have c2: "deepClone (stack e) h1 initialState = Inr (h2, st)" by simp
    from deepClone_grows[OF c2] obtain z2 where h2: "h2 = h1 @ z2" by auto
    have "is_plain h2 (VRef a)" using p1 h2 by (simp add: is_plain_append del: is_plain.simps)
    then show ?thesis
      by (simp add: reset_fields[OF c1 c2] del: is_plain.simps)
  qed
qed

lemma plain_root_reset:
  assumes "plain_root m" and "is_plain (store m) initialState"
  shows "plain_root (snd (reset e m))"
proof (cases "deepClone (stack e) (store m) (state m)")
  case (Inl err)
  then show ?thesis using assms by (simp add: reset_def)
next
  case (Inr r1)
  obtain h1 old where r1: "r1 = (h1, old)" by (cases r1)
  from Inr r1 have c1: "deepClone (stack e) (store m) (state m) = Inr (h1, old)" by simp
  from deepClone_grows[OF c1] obtain z1 where h1: "h1 = store m @ z1" by auto
  from plain_rootD[OF assms(1)] obtain a ps where st: "state m = VRef a"
    and lk: "lookup_obj (store m) a = Some (Obj Plain ps)" by blast
  have pa: "is_plain (store m) (VRef a)" using lk by simp
  have p1: "is_plain h1 (VRef a)" using pa h1 by (simp add: is_plain_append del: is_plain.simps)
  have pi: "is_plain h1 initialState"
    using assms(2) h1 by (simp add: initialState_def is_plain_append del: is_plain.simps)
  show ?thesis
  proof (cases "deepClone (stack e) h1 initialState")
    case (Inl err)
    then show ?thesis using c1 p1 st by (simp add: reset_def plain_root_def)
  next
    case (Inr r2)
    obtain h2 st2 where r2: "r2 = (h2, st2)" by (cases r2)
    from Inr r2 have c2: "deepClone (stack e) h1 initialState = Inr (h2, st2)" by simp
    from deepClone_is_plain[OF c2 pi] have "is_plain h2 st2" .
    then show ?thesis
      by (simp add: plain_root_def reset_fields[OF c1 c2] del: is_plain.simps)
  qed
qed

lemma plain_root_setNested: "plain_root m \<Longrightarrow> plain_root (snd (setNested e m path value))"
proof -
  assume pr: "plain_root m"
  from plain_rootD[OF pr] obtain a ps where st: "state m = VRef a"
    and lk: "lookup_obj (store m) a = Some (Obj Plain ps)" by blast
  have "is_plain (store m) (VRef a)" using lk by simp
  from setNested_is_plain[OF this, of e path "value"] st show ?thesis
    by (simp add: plain_root_def)
qed

lemma apply_op_rooted:
  assumes "plain_root m" and "is_plain (store m) initialState"
  shows "plain_root (apply_op e m x) \<and> is_plain (store (apply_op e m x)) initialState"
proof (cases x)
  case (Set now key v)
  then show ?thesis
    using plain_root_set_val[OF assms(1)] set_val_is_plain[of m 10] assms(2)
    by (simp add: initialState_def)
next
  case (SetNested path v)
  then show ?thesis
    using plain_root_setNested[OF assms(1)] setNested_is_plain[of m 10] assms(2)
    by (simp add: initialState_def)
next
  case (Subscribe key l)
  then show ?thesis using assms by (simp add: subscribe_def Let_def plain_root_def)
next
  case (Unsubscribe key l)
  then show ?thesis using assms
    by (simp add: unsubscribe_def Let_def plain_root_def split: option.splits)
next
  case Reset
  then show ?thesis
    using plain_root_reset[OF assms] reset_is_plain[of m 10] assms(2)
    by (simp add: initialState_def)
next
  case ClearHistory
  then show ?thesis using assms by (simp add: clearHistory_def plain_root_def)
qed

lemma run_rooted:
  "plain_root m \<Longrightarrow> is_plain (store m) initialState \<Longrightarrow>
   plain_root (run e m ops) \<and> is_plain (store (run e m ops)) initialState"
  unfolding run_def
proof (induction ops arbitrary: m)
  case Nil
  then show ?case by simp
next
  case (Cons x ops)
  from apply_op_rooted[OF Cons.prems, of e x] Cons.IH[of "apply_op e m x"]
  show ?case by simp
qed

lemma run_fresh_rooted: "plain_root (run e fresh ops)"
  using run_rooted[OF plain_root_fresh, of e ops]
  by (simp add: fresh_def fresh_store_def initialState_def module_store_def lookup_obj_def)


text \<open>The registry is changed by \<open>subscribe\<close> and by the closures it returns only.\<close>

lemma distinct_set_add: "distinct ls \<Longrightarrow> distinct (set_add l ls)"
  by (simp add: set_add_def)

lemma distinct_set_delete: "distinct ls \<Longrightarrow> distinct (set_delete l ls)"
  by (simp add: set_delete_def distinct_removeAll)

lemma map_of_list_all: "map_of al k = Some v \<Longrightarrow> list_all P al \<Longrightarrow> P (k, v)"
  by (auto simp: list_all_iff dest: map_of_SomeD)

lemma registry_ok_subscribe: "registry_ok m \<Longrightarrow> registry_ok (fst (subscribe m key l))"
proof -
  assume ok: "registry_ok m"
  then have d: "distinct (map fst (listeners m))"
    and a: "list_all (\<lambda>p. distinct (snd p)) (listeners m)"
    by (simp_all add: registry_ok_def)
  show ?thesis
  proof (cases "map_of (listeners m) key")
    case None
    have a1: "list_all (\<lambda>p. distinct (snd p)) (AList.update key [] (listeners m))"
      by (rule list_all_update[OF a]) simp
    have "list_all (\<lambda>p. distinct (snd p))
        (AList.update key (set_add l []) (AList.update key [] (listeners m)))"
      by (rule list_all_update[OF a1]) (simp add: set_add_def)
    then show ?thesis using None d
      by (simp add: registry_ok_def subscribe_def Let_def map_of_update_same distinct_update)
  next
    case (Some ls)
    from map_of_list_all[OF Some a] have "distinct ls" by simp
    have "list_all (\<lambda>p. distinct (snd p)) (AList.update key (set_add l ls) (listeners m))"
      using \<open>distinct ls\<close> by (intro list_all_update[OF a]) (simp add: distinct_set_add)
    then show ?thesis using Some d
      by (simp add: registry_ok_def subscribe_def Let_def distinct_update)
  qed
qed

lemma registry_ok_unsubscribe: "registry_ok m \<Longrightarrow> registry_ok (unsubscribe key l m)"
proof -
  assume ok: "registry_ok m"
  then have d: "distinct (map fst (listeners m))"
    and a: "list_all (\<lambda>p. distinct (snd p)) (listeners m)"
    by (simp_all add: registry_ok_def)
  show ?thesis
  proof (cases "map_of (listeners m) key")
    case None
    then show ?thesis using ok by (simp add: unsubscribe_def)
  next
    case (Some ls)
    from map_of_list_all[OF Some a] have dl: "distinct ls" by simp
    have a1: "list_all (\<lambda>p. distinct (snd p)) (AList.update key (set_delete l ls) (listeners m))"
      using dl by (intro list_all_update[OF a]) (simp add: distinct_set_delete)
    have a2: "list_all (\<lambda>p. distinct (snd p)) (AList.delete key (listeners m))"
      using a by (rule list_all_delete)
    show ?thesis using Some d a1 a2
      by (simp add: registry_ok_def unsubscribe_def Let_def distinct_update distinct_delete)
  qed
qed

lemma apply_op_registry:
  assumes "registry_ok m" and "no_empty_sets m"
  shows "registry_ok (apply_op e m x) \<and> no_empty_sets (apply_op e m x)"
proof (cases x)
  case (Set now key v)
  then show ?thesis using assms by (simp add: registry_ok_def no_empty_sets_def)
next
  case (SetNested path v)
  then show ?thesis using assms by (simp add: registry_ok_def no_empty_sets_def)
next
  case (Subscribe key l)
  then show ?thesis using assms
    by (simp add: registry_ok_subscribe no_empty_sets_subscribe)
next
  case (Unsubscribe key l)
  then show ?thesis using assms
    by (simp add: registry_ok_unsubscribe no_empty_sets_unsubscribe)
next
  case Reset
  then show ?thesis using assms by (simp add: registry_ok_def no_empty_sets_def)
next
  case ClearHistory
  then show ?thesis using assms by (simp add: registry_ok_def no_empty_sets_def clearHistory_def)
qed

lemma run_registry:
  "registry_ok m \<Longrightarrow> no_empty_sets m \<Longrightarrow>
   registry_ok (run e m ops) \<and> no_empty_sets (run e m ops)"
  unfolding run_def
proof (induction ops arbitrary: m)
  case Nil
  then show ?case by simp
next
  case (Cons x ops)
  from apply_op_registry[OF Cons.prems, of e x] Cons.IH[of "apply_op e m x"]
  show ?case by simp
qed

lemma run_fresh_registry: "registry_ok (run e fresh ops) \<and> no_empty_sets (run e fresh ops)"
  by (rule run_registry) (simp_all add: registry_ok_def no_empty_sets_def fresh_def)
end
